theory Spec2Isabelle
  imports Complex_Main "HOL-Library.Word"
begin

unbundle bit_operations_syntax

section \<open>Constants and helpers of the codec\<close>

text \<open>
  A shallow embedding of class \<open>PFor\<close> (headers/pfor.h). Values are 32-bit words;
  \<open>size_t\<close> quantities (lengths, positions, cursors) are natural numbers, and every
  place where the code narrows one to 32 bits is written out with \<open>of_nat\<close>.
  A pointer into a buffer is the buffer (a list) together with a position.
\<close>

type_synonym u32 = "32 word"

datatype error = NotDivisible | AssertionFailed | OutOfBounds

definition BlockSizeInUnitsOfPackSize :: nat where
  "BlockSizeInUnitsOfPackSize = 4"

definition PACKSIZE :: nat where
  "PACKSIZE = 32"

definition BlockSize :: nat where
  "BlockSize = BlockSizeInUnitsOfPackSize * PACKSIZE"

text \<open>The number of binary digits of a natural number: 0 for 0, 8 for 128, 32 for \<open>2^32 - 1\<close>.\<close>

fun bit_length :: "nat \<Rightarrow> nat" where
  "bit_length x = (if x = 0 then 0 else 1 + bit_length (x div 2))"

declare bit_length.simps [simp del]

text \<open>
  Modelled from the spec: \<open>constexprbits\<close> (util.h) is not among the sources at hand.
  The spec describes its value on \<open>BlockSize\<close> as "the number of bits needed to
  represent BlockSize", that is \<open>ceil(log2(BlockSize+1))\<close>.
\<close>

definition constexprbits :: "nat \<Rightarrow> nat" where
  "constexprbits x = bit_length x"

definition blocksizeinbits :: nat where
  "blocksizeinbits = constexprbits BlockSize"

text \<open>
  Modelled from the spec: \<open>asmbits\<close> (util.h) is not among the sources at hand. The spec:
  "for each sampled value compute its bit-length (number of bits needed to represent it,
  0-32)".
\<close>

definition asmbits :: "u32 \<Rightarrow> nat" where
  "asmbits v = bit_length (unat v)"

text \<open>
  Modelled from the spec: \<open>checkifdivisibleby\<close> (util.h) is not among the sources at hand.
  The spec: a chunk length that is not a multiple of \<open>BlockSize\<close> is a precondition
  violation that fails fast.
\<close>

definition checkifdivisibleby :: "nat \<Rightarrow> nat \<Rightarrow> error + unit" where
  "checkifdivisibleby a x = (if a mod x = 0 then Inr () else Inl NotDivisible)"

subsection \<open>The fixed-width packing primitive\<close>

text \<open>
  Modelled from the spec: \<open>fastpack\<close> and \<open>fastunpack\<close> (bitpacking.h) are not among the
  sources at hand, and the spec gives their contract only: \<open>pack\<close> turns \<open>N\<close> values
  into \<open>ceil(N*b/32)\<close> words, "lossless for all values \<open>< 2^b\<close>, undefined/ill-defined
  otherwise"; \<open>unpack\<close> is the "exact inverse, total for any packed buffer of the right
  size". The two functions are therefore a parameter of the model, the record \<open>packer\<close>:
  \<open>fastpack pk vs b\<close> is the list of words that \<open>fastpack(in, out, b)\<close> writes at \<open>out\<close> for
  the 32 values \<open>vs\<close> at \<open>in\<close>, and \<open>fastunpack pk ws b\<close> the 32 values that
  \<open>fastunpack(in, out, b)\<close> writes for the \<open>b\<close> words \<open>ws\<close> at \<open>in\<close>. Nothing is fixed about
  them beyond what a theorem assumes; \<open>pack_contract\<close> is the contract in the words of the
  spec, with \<open>N = 32\<close>.
\<close>

record packer =
  fastpack :: "u32 list \<Rightarrow> nat \<Rightarrow> u32 list"
  fastunpack :: "u32 list \<Rightarrow> nat \<Rightarrow> u32 list"

definition pack_sized :: "packer \<Rightarrow> bool" where
  "pack_sized pk \<longleftrightarrow>
     (\<forall>vs b. length vs = 32 \<longrightarrow> length (fastpack pk vs b) = b)
     \<and> (\<forall>ws b. length (fastunpack pk ws b) = 32)"


text \<open>
  \<open>packblock\<close> and \<open>unpackblock\<close>: the loop \<open>for (j = 0; j != BlockSize; j += PACKSIZE)\<close>
  runs \<open>BlockSizeInUnitsOfPackSize\<close> times; each round packs the 32 values at \<open>source + j\<close>
  into \<open>bit\<close> words (or unpacks the next \<open>bit\<close> words into 32 values); the width
  \<open>bit\<close> is called \<open>nbit\<close> here.
\<close>

definition packblock :: "packer \<Rightarrow> u32 list \<Rightarrow> nat \<Rightarrow> u32 list" where
  "packblock pk source nbit =
     concat (map (\<lambda>i. fastpack pk (take PACKSIZE (drop (i * PACKSIZE) source)) nbit)
                 [0..<BlockSizeInUnitsOfPackSize])"

definition unpackblock :: "packer \<Rightarrow> u32 list \<Rightarrow> nat \<Rightarrow> u32 list" where
  "unpackblock pk source nbit =
     concat (map (\<lambda>i. fastunpack pk (take nbit (drop (i * nbit) source)) nbit)
                 [0..<BlockSizeInUnitsOfPackSize])"

section \<open>Bit-width selection\<close>

text \<open>
  \<open>determineBestBase\<close> compares costs computed in \<open>double\<close>. The arithmetic of doubles is
  a parameter: a record of the operations the function uses, over any carrier. The value
  of \<open>rand()\<close> is the parameter \<open>r\<close>. The counters \<open>freqs\<close> and \<open>numberofexceptions\<close>
  are at most the sample size \<open>65536\<close>, so they are natural numbers.
\<close>

record 'd fp_ops =
  fp_of_nat :: "nat \<Rightarrow> 'd"
  fp_add :: "'d \<Rightarrow> 'd \<Rightarrow> 'd"
  fp_sub :: "'d \<Rightarrow> 'd \<Rightarrow> 'd"
  fp_mul :: "'d \<Rightarrow> 'd \<Rightarrow> 'd"
  fp_div :: "'d \<Rightarrow> 'd \<Rightarrow> 'd"
  fp_less :: "'d \<Rightarrow> 'd \<Rightarrow> bool"
  fp_le :: "'d \<Rightarrow> 'd \<Rightarrow> bool"

text \<open>The state of the scan over the widths is \<open>(bestb, numberofexceptions, bestcost)\<close>.\<close>

definition cost_step ::
  "'d fp_ops \<Rightarrow> nat list \<Rightarrow> nat \<Rightarrow> nat \<Rightarrow> nat \<times> nat \<times> 'd \<Rightarrow> nat \<times> nat \<times> 'd" where
  "cost_step fp freqs samplesize b = (\<lambda>(bestb, numberofexceptions, bestcost).
     (let numberofexceptions' = numberofexceptions + freqs ! (b + 1);
          Erate = fp_div fp (fp_mul fp (fp_of_nat fp numberofexceptions') (fp_of_nat fp 1))
                            (fp_of_nat fp samplesize);
          Erate' =
            (if numberofexceptions' > 0
             then (let altErate =
                         fp_div fp (fp_sub fp (fp_mul fp Erate (fp_of_nat fp 128)) (fp_of_nat fp 1))
                                   (fp_mul fp Erate (fp_of_nat fp (2 ^ b)))
                   in if fp_less fp Erate altErate then altErate else Erate)
             else Erate);
          thiscost = fp_add fp (fp_of_nat fp b) (fp_mul fp Erate' (fp_of_nat fp 32))
      in if fp_le fp thiscost bestcost then (b, numberofexceptions', thiscost)
         else (bestb, numberofexceptions', bestcost)))"

definition sample_start :: "nat \<Rightarrow> nat \<Rightarrow> nat \<Rightarrow> nat" where
  "sample_start r sz samplesize =
     (if sz > samplesize then (r mod (sz - samplesize)) mod 2 ^ 32 else 0)"

definition determineBestBase :: "'d fp_ops \<Rightarrow> nat \<Rightarrow> u32 list \<Rightarrow> nat" where
  "determineBestBase fp r input =
     (let sz = length input in
      if sz = 0 then 0
      else
        (let defaultsamplesize = 64 * 1024;
             samplesize = (if sz > defaultsamplesize then defaultsamplesize else sz);
             rstart = sample_start r sz samplesize;
             freqs = fold (\<lambda>k f. f[asmbits (input ! k) := f ! asmbits (input ! k) + 1])
                          [rstart..<rstart + samplesize] (replicate 33 0);
             (bestb, numberofexceptions, bestcost) =
                fold (cost_step fp freqs samplesize) (rev [0..<32]) (32, 0, fp_of_nat fp 32)
         in bestb))"

section \<open>Block encoder\<close>

text \<open>
  The codec object owns two scratch vectors of \<open>BlockSize\<close> entries, reused by every call.
\<close>

record codec =
  codedcopy :: "u32 list"
  miss :: "nat list"

definition PFor :: codec where
  "PFor = \<lparr>codedcopy = replicate BlockSize 0, miss = replicate BlockSize 0\<rparr>"

text \<open>
  The scan that collects the exception positions: \<open>miss[exceptcounter] = k;
  exceptcounter += (in[k] >= maxgap)\<close>. Here and below \<open>maxgap = 1U << b\<close> is the natural
  number \<open>2 ^ b\<close>: the function is past its \<open>b == 32\<close> exit, and the widths it is given
  are at most 32, so the shift does not wrap.
\<close>

definition scan_step :: "u32 list \<Rightarrow> nat \<Rightarrow> nat \<Rightarrow> nat list \<times> nat \<Rightarrow> nat list \<times> nat" where
  "scan_step input maxgap k = (\<lambda>(m, exceptcounter).
     (m[exceptcounter := k], exceptcounter + (if unat (input ! k) \<ge> maxgap then 1 else 0)))"

text \<open>
  The patching loops work on \<open>(codedcopy, prev, exceptions)\<close>; \<open>*(exceptions++) = v\<close>
  appends \<open>v\<close> to the exception output. \<open>compulsory\<close> is the inner \<open>while\<close>.
\<close>

function compulsory ::
  "nat \<Rightarrow> nat \<Rightarrow> u32 list \<times> nat \<times> u32 list \<Rightarrow> u32 list \<times> nat \<times> u32 list" where
  "compulsory b cur (cc, prev, exceptions) =
     (let maxgap = 2 ^ b in
      if cur > maxgap + prev
      then (let compulcur = prev + maxgap
            in compulsory b cur
                 (cc[prev := of_nat (maxgap - 1)], compulcur, exceptions @ [cc ! compulcur]))
      else (cc, prev, exceptions))"
  by pat_completeness auto
termination
proof (relation "measure (\<lambda>(b, cur, cc, prev, exceptions). cur - prev)")
  show "wf (measure (\<lambda>(b, cur, cc, prev, exceptions). cur - prev))"
    by simp
next
  fix b cur :: nat and cc :: "u32 list" and prev :: nat and exceptions :: "u32 list"
    and maxgap compulcur :: nat
  assume "maxgap = 2 ^ b" and "maxgap + prev < cur" and "compulcur = prev + maxgap"
  moreover have "(0::nat) < 2 ^ b"
    by simp
  ultimately have "cur - compulcur < cur - prev"
    by linarith
  then show "((b, cur, cc[prev := of_nat (maxgap - 1)], compulcur, exceptions @ [cc ! compulcur]),
              (b, cur, cc, prev, exceptions))
             \<in> measure (\<lambda>(b, cur, cc, prev, exceptions). cur - prev)"
    by simp
qed

declare compulsory.simps [simp del]

definition patch_plain ::
  "nat list \<Rightarrow> nat \<Rightarrow> u32 list \<times> nat \<times> u32 list \<Rightarrow> u32 list \<times> nat \<times> u32 list" where
  "patch_plain m i = (\<lambda>(cc, prev, exceptions).
     (let cur = m ! i
      in (cc[prev := of_nat (cur - prev - 1)], cur, exceptions @ [cc ! cur])))"

definition patch_compulsory ::
  "nat \<Rightarrow> nat list \<Rightarrow> nat \<Rightarrow> u32 list \<times> nat \<times> u32 list \<Rightarrow> u32 list \<times> nat \<times> u32 list" where
  "patch_compulsory b m i s = patch_plain m i (compulsory b (m ! i) s)"

text \<open>
  \<open>compressblockPFOR\<close> takes the codec, the block at \<open>in\<close>, the width and the exception
  output so far; it returns the codec, the words written at \<open>outputbegin\<close>, the exception
  output and the position of the first exception.
\<close>

definition compressblockPFOR ::
  "packer \<Rightarrow> codec \<Rightarrow> u32 list \<Rightarrow> nat \<Rightarrow> u32 list \<Rightarrow> codec \<times> u32 list \<times> u32 list \<times> nat" where
  "compressblockPFOR pk c input b exceptions =
     (if b = 32 then (c, take BlockSize input, exceptions, BlockSize)
      else
        (let maxgap = 2 ^ b;
             (m, exceptcounter) = fold (scan_step input maxgap) [0..<BlockSize] (miss c, 0)
         in if exceptcounter = 0
            then (c\<lparr>miss := m\<rparr>, packblock pk input b, exceptions, BlockSize)
            else
              (let cc = take BlockSize input;
                   firstexcept = m ! 0;
                   start = (cc, firstexcept, exceptions @ [cc ! firstexcept]);
                   (cc', prev, exceptions') =
                      (if maxgap < BlockSize
                       then fold (patch_compulsory b m) [1..<exceptcounter] start
                       else fold (patch_plain m) [1..<exceptcounter] start)
               in (\<lparr>codedcopy = cc', miss = m\<rparr>, packblock pk cc' b, exceptions', firstexcept))))"

text \<open>
  The positions of a block that hold an exception at width \<open>b\<close>, in increasing order.
\<close>

definition exception_positions :: "u32 list \<Rightarrow> nat \<Rightarrow> nat list" where
  "exception_positions input b = filter (\<lambda>k. 2 ^ b \<le> unat (input ! k)) [0..<BlockSize]"

section \<open>Block decoder\<close>

text \<open>
  The chain walk of \<open>uncompressblockPFOR\<close> on \<open>(outputbegin, i, cur)\<close>. The exception
  values are read from the input buffer \<open>inp\<close> at the cursor \<open>i\<close>. A read past the end
  of the input, or a chain position outside the block, is the error \<open>OutOfBounds\<close>
  (the C code would touch memory outside the buffers it was given).
\<close>

function chain_walk ::
  "u32 list \<Rightarrow> nat \<Rightarrow> u32 list \<times> nat \<times> nat \<Rightarrow> error + (u32 list \<times> nat)" where
  "chain_walk inp end_exception (out, i, cur) =
     (if i = end_exception then Inr (out, i)
      else if length out \<le> cur \<or> length inp \<le> i then Inl OutOfBounds
      else chain_walk inp end_exception
             (out[cur := inp ! i], i + 1, cur + unat (out ! cur) + 1))"
  by pat_completeness auto
termination
  by (relation "measure (\<lambda>(inp, end_exception, out, i, cur). length inp - i)") auto

declare chain_walk.simps [simp del]

definition uncompressblockPFOR ::
  "packer \<Rightarrow> u32 list \<Rightarrow> nat \<Rightarrow> nat \<Rightarrow> nat \<Rightarrow> nat \<Rightarrow> nat \<Rightarrow> error + (u32 list \<times> nat)" where
  "uncompressblockPFOR pk inp inputbegin b i end_exception next_exception =
     (let n = BlockSizeInUnitsOfPackSize * b in
      if length inp < inputbegin + n then Inl OutOfBounds
      else chain_walk inp end_exception
             (unpackblock pk (take n (drop inputbegin inp)) b, i, next_exception))"

section \<open>Chunk encoder and decoder\<close>

definition firstexceptmask :: nat where
  "firstexceptmask = 2 ^ blocksizeinbits - 1"

text \<open>
  The header word \<open>(firstexcept & firstexceptmask) | (exceptindex << bitsforfirstexcept)\<close>
  is computed in \<open>size_t\<close> and narrowed to 32 bits when stored.
\<close>

definition blockheader :: "nat \<Rightarrow> nat \<Rightarrow> u32" where
  "blockheader firstexcept exceptindex =
     of_nat ((firstexcept AND firstexceptmask) OR push_bit blocksizeinbits exceptindex)"

definition header_firstexcept :: "u32 \<Rightarrow> nat" where
  "header_firstexcept h = unat (h AND of_nat firstexceptmask)"

definition header_exceptindex :: "u32 \<Rightarrow> nat" where
  "header_exceptindex h = unat (drop_bit blocksizeinbits h)"

text \<open>
  The block loop of \<open>__encodeArray\<close>, on the number of blocks left: it returns the words
  written (each block's header, then its packed words) and the exception output.
\<close>

fun encode_blocks ::
  "packer \<Rightarrow> codec \<Rightarrow> nat \<Rightarrow> nat \<Rightarrow> u32 list \<Rightarrow> u32 list \<Rightarrow> codec \<times> u32 list \<times> u32 list" where
  "encode_blocks pk c b 0 input exceptions = (c, [], exceptions)"
| "encode_blocks pk c b (Suc k) input exceptions =
     (let (c1, packed, exceptions1, firstexcept) =
            compressblockPFOR pk c (take BlockSize input) b exceptions;
          header = blockheader firstexcept (length exceptions1);
          (c2, rest, exceptions2) = encode_blocks pk c1 b k (drop BlockSize input) exceptions1
      in (c2, header # packed @ rest, exceptions2))"

text \<open>
  \<open>__encodeArray\<close>: it returns the codec, the words written and their number \<open>nvalue\<close>.
  The cursor moves by \<open>(BlockSize * b) / 32\<close> after each block; that is the number of
  words \<open>compressblockPFOR\<close> writes when \<open>b\<close> is at most 32 and the packing primitive
  writes \<open>b\<close> words for 32 values (\<open>pack_sized\<close>).
\<close>

definition encodeArray_chunk ::
  "packer \<Rightarrow> 'd fp_ops \<Rightarrow> nat \<Rightarrow> codec \<Rightarrow> u32 list \<Rightarrow> error + (codec \<times> u32 list \<times> nat)" where
  "encodeArray_chunk pk fp r c input =
     (let len = length input in
      case checkifdivisibleby len BlockSize of
        Inl e \<Rightarrow> Inl e
      | Inr _ \<Rightarrow>
          (let b = determineBestBase fp r input;
               (c', blocks, exceptions) = encode_blocks pk c b (len div BlockSize) input [];
               out = [of_nat len, of_nat b] @ blocks @ exceptions
           in Inr (c', out, length out)))"

text \<open>
  The block loop of \<open>__decodeArray\<close> on \<open>(in, out, except, endexceptpointer)\<close>, and the
  function itself, which returns the cursor \<open>endexceptpointer\<close>, the values written and
  their number.
\<close>

fun decode_blocks ::
  "packer \<Rightarrow> u32 list \<Rightarrow> nat \<Rightarrow> nat \<Rightarrow> nat \<Rightarrow> nat \<times> u32 list \<times> nat \<times> nat
     \<Rightarrow> error + (nat \<times> u32 list \<times> nat \<times> nat)" where
  "decode_blocks pk inp b initexcept 0 s = Inr s"
| "decode_blocks pk inp b initexcept (Suc k) (pos, out, except, endexceptpointer) =
     (if length inp \<le> pos then Inl OutOfBounds
      else
        (let firstexcept = header_firstexcept (inp ! pos);
             exceptindex = header_exceptindex (inp ! pos);
             endexceptpointer' = initexcept + exceptindex
         in case uncompressblockPFOR pk inp (pos + 1) b except endexceptpointer' firstexcept of
              Inl e \<Rightarrow> Inl e
            | Inr (block, except') \<Rightarrow>
                decode_blocks pk inp b initexcept k
                  (pos + 1 + (BlockSize * b mod 2 ^ 32) div 32, out @ block, except',
                   endexceptpointer')))"

definition decodeArray_chunk ::
  "packer \<Rightarrow> u32 list \<Rightarrow> nat \<Rightarrow> nat \<Rightarrow> error + (nat \<times> u32 list \<times> nat)" where
  "decodeArray_chunk pk inp initin len =
     (if length inp \<le> initin then Inl OutOfBounds
      else
        (let nvalue = unat (inp ! initin) in
         case checkifdivisibleby nvalue BlockSize of
           Inl e \<Rightarrow> Inl e
         | Inr _ \<Rightarrow>
             if length inp \<le> initin + 1 then Inl OutOfBounds
             else
               (let b = unat (inp ! (initin + 1));
                    except = initin + 2 + nvalue * b div 32 + nvalue div BlockSize
                in case decode_blocks pk inp b except (nvalue div BlockSize)
                          (initin + 2, [], except, except) of
                     Inl e \<Rightarrow> Inl e
                   | Inr (pos, out, except', endexceptpointer) \<Rightarrow>
                       if initin + len \<ge> pos \<and> initin + len \<ge> endexceptpointer
                       then Inr (endexceptpointer, out, nvalue)
                       else Inl AssertionFailed)))"

section \<open>Array driver\<close>

definition maxsize :: nat where
  "maxsize = 2 ^ (32 - blocksizeinbits - 1)"

text \<open>
  The chunk loop of \<open>encodeArray\<close> on \<open>(codec, words written, totalnvalue)\<close>; \<open>nvalue\<close>
  is the capacity the caller announces, and \<open>rnd i\<close> the value \<open>rand()\<close> would return
  while the chunk at offset \<open>i\<close> is encoded.
\<close>

function encode_chunks ::
  "packer \<Rightarrow> 'd fp_ops \<Rightarrow> (nat \<Rightarrow> nat) \<Rightarrow> u32 list \<Rightarrow> nat \<Rightarrow> nat \<Rightarrow> codec \<times> u32 list \<times> nat
     \<Rightarrow> error + (codec \<times> u32 list \<times> nat)" where
  "encode_chunks pk fp rnd input nvalue i (c, out, totalnvalue) =
     (let len = length input in
      if i < len
      then (let l = (if i + maxsize > len then len - i else maxsize) in
            if \<not> (l \<le> maxsize \<and> i + l \<le> len) then Inl AssertionFailed
            else case encodeArray_chunk pk fp (rnd i) c (take l (drop i input)) of
                   Inl e \<Rightarrow> Inl e
                 | Inr (c', ws, thisnvalue) \<Rightarrow>
                     if totalnvalue + thisnvalue \<le> nvalue
                     then encode_chunks pk fp rnd input nvalue (i + maxsize)
                            (c', out @ ws, totalnvalue + thisnvalue)
                     else Inl AssertionFailed)
      else Inr (c, out, totalnvalue))"
  by pat_completeness auto
termination
proof (relation "measure (\<lambda>(pk, fp, rnd, input, nvalue, i, s). length input - i)")
  show "wf (measure (\<lambda>(pk, fp, rnd, input, nvalue, i, s). length input - i))"
    by simp
next
  fix pk :: packer and fp :: "'d fp_ops" and rnd :: "nat \<Rightarrow> nat" and input :: "u32 list"
    and nvalue i :: nat
    and c c' :: codec and out ws :: "u32 list" and totalnvalue len thisnvalue :: nat
  assume "len = length input" and "i < len"
  moreover have "0 < maxsize"
    by (simp add: maxsize_def)
  ultimately have "length input - (i + maxsize) < length input - i"
    by linarith
  then show "((pk, fp, rnd, input, nvalue, i + maxsize, c', out @ ws, totalnvalue + thisnvalue),
              (pk, fp, rnd, input, nvalue, i, c, out, totalnvalue))
             \<in> measure (\<lambda>(pk, fp, rnd, input, nvalue, i, s). length input - i)"
    by simp
qed

declare encode_chunks.simps [simp del]

definition encodeArray ::
  "packer \<Rightarrow> 'd fp_ops \<Rightarrow> (nat \<Rightarrow> nat) \<Rightarrow> codec \<Rightarrow> u32 list \<Rightarrow> nat
     \<Rightarrow> error + (codec \<times> u32 list \<times> nat)" where
  "encodeArray pk fp rnd c input nvalue =
     encode_chunks pk fp rnd input nvalue 0 (c, [of_nat (length input)], 1)"

text \<open>
  The chunk loop of \<open>decodeArray\<close> on \<open>(in, values written, totalnvalue)\<close>, and the
  function itself; \<open>finalin\<close> is \<open>in + len\<close> taken after the first word was read. The
  result is the cursor, the values and their number.
\<close>

function decode_chunks ::
  "packer \<Rightarrow> u32 list \<Rightarrow> nat \<Rightarrow> nat \<Rightarrow> nat \<Rightarrow> nat \<times> u32 list \<times> nat \<Rightarrow> error + (nat \<times> u32 list \<times> nat)" where
  "decode_chunks pk inp len nvalue finalin (pos, out, totalnvalue) =
     (if totalnvalue < nvalue
      then (if \<not> finalin \<le> len + pos then Inl AssertionFailed
            else case decodeArray_chunk pk inp pos (finalin - pos) of
                   Inl e \<Rightarrow> Inl e
                 | Inr (pos', vals, thisnvalue) \<Rightarrow>
                     if pos < pos' \<and> pos' \<le> finalin \<and> totalnvalue + thisnvalue \<le> nvalue
                     then decode_chunks pk inp len nvalue finalin
                            (pos', out @ vals, totalnvalue + thisnvalue)
                     else Inl AssertionFailed)
      else if pos \<le> finalin then Inr (pos, out, totalnvalue)
      else Inl AssertionFailed)"
  by pat_completeness auto
termination
  by (relation "measure (\<lambda>(pk, inp, len, nvalue, finalin, pos, s). finalin - pos)") auto

declare decode_chunks.simps [simp del]

definition decodeArray :: "packer \<Rightarrow> u32 list \<Rightarrow> nat \<Rightarrow> error + (nat \<times> u32 list \<times> nat)" where
  "decodeArray pk inp len =
     (if inp = [] then Inl OutOfBounds
      else
        (let nvalue = unat (inp ! 0) in
         if nvalue = 0 then Inr (1, [], 0)
         else decode_chunks pk inp len nvalue (1 + len) (1, [], 0)))"

section \<open>Notions used to state and prove the properties\<close>


text \<open>
  Two packing primitives, to run the model. \<open>bit_packer\<close> lays the \<open>b\<close> low bits of the 32
  values out one after the other, least significant bit first, and cuts them into \<open>b\<close>
  words of 32 bits; it drops the bits of a value from position \<open>b\<close> on. \<open>strict_packer\<close>
  packs the same way when all 32 values are below \<open>2^b\<close> and writes zero words otherwise.
  Both meet the contract of the spec.
\<close>

definition bits_of :: "nat \<Rightarrow> u32 \<Rightarrow> bool list" where
  "bits_of b v = map (bit v) [0..<b]"

definition word_of_bits :: "bool list \<Rightarrow> u32" where
  "word_of_bits bs = horner_sum of_bool 2 bs"

definition pack_bits :: "u32 list \<Rightarrow> nat \<Rightarrow> u32 list" where
  "pack_bits vs b =
     (let bs = concat (map (bits_of b) vs)
      in map (\<lambda>i. word_of_bits (take 32 (drop (i * 32) bs))) [0..<b])"

definition unpack_bits :: "u32 list \<Rightarrow> nat \<Rightarrow> u32 list" where
  "unpack_bits ws b =
     (let bs = concat (map (bits_of 32) ws)
      in map (\<lambda>i. word_of_bits (take b (drop (i * b) bs))) [0..<32])"

definition bit_packer :: packer where
  "bit_packer = \<lparr>fastpack = pack_bits, fastunpack = unpack_bits\<rparr>"



text \<open>
  A buffer holds the words \<open>ws\<close> at position \<open>p\<close>.
\<close>

definition holds_at :: "'a list \<Rightarrow> nat \<Rightarrow> 'a list \<Rightarrow> bool" where
  "holds_at inp p ws \<longleftrightarrow> p + length ws \<le> length inp \<and> take (length ws) (drop p inp) = ws"

text \<open>
  The body of the patching loop that \<open>compressblockPFOR\<close> runs: with the inner
  \<open>while\<close> when \<open>maxgap < BlockSize\<close>, without it otherwise.
\<close>

definition patch_body :: "nat \<Rightarrow> nat list \<Rightarrow> nat \<Rightarrow> u32 list \<times> nat \<times> u32 list \<Rightarrow> u32 list \<times> nat \<times> u32 list" where
  "patch_body b m = (if 2 ^ b < BlockSize then patch_compulsory b m else patch_plain m)"

text \<open>
  A chain of positions as the encoder leaves it in \<open>codedcopy\<close>: every position but the
  last holds the gap code to its successor, and no gap exceeds \<open>2 ^ b\<close>. The invariant
  of the patching loops relates the scratch copy, the chain built so far and the exception
  output to the block being encoded.
\<close>

fun chain_ok :: "nat \<Rightarrow> u32 list \<Rightarrow> nat list \<Rightarrow> bool" where
  "chain_ok b cc (p # p' # ps) =
     (p < p' \<and> p' - p \<le> 2 ^ b \<and> cc ! p = of_nat (p' - p - 1) \<and> chain_ok b cc (p' # ps))"
| "chain_ok b cc ps = True"

definition patch_inv ::
  "u32 list \<Rightarrow> nat \<Rightarrow> u32 list \<Rightarrow> nat list \<Rightarrow> u32 list \<times> nat \<times> u32 list \<Rightarrow> bool" where
  "patch_inv blk b ex0 ps = (\<lambda>(cc, prev, ex).
     ps \<noteq> [] \<and> last ps = prev \<and> prev < length blk \<and> length cc = length blk \<and>
     chain_ok b cc ps \<and> ex = ex0 @ map ((!) blk) ps \<and>
     (\<forall>q < length blk. prev \<le> q \<longrightarrow> cc ! q = blk ! q) \<and>
     (\<forall>q < prev. q \<notin> set ps \<longrightarrow> cc ! q = blk ! q) \<and>
     (\<forall>q \<le> prev. 2 ^ b \<le> unat (blk ! q) \<longrightarrow> q \<in> set ps))"


text \<open>
  The patching of one further real exception position \<open>cur\<close>, and of a list of them, in
  the words of the specification: while \<open>cur - prev > maxgap\<close> a compulsory exception
  is inserted at \<open>mid = prev + maxgap\<close> (its value is emitted, slot \<open>prev\<close> gets the gap
  code \<open>maxgap - 1\<close>, \<open>prev\<close> moves to \<open>mid\<close>); once \<open>cur - prev <= maxgap\<close> the
  value at \<open>cur\<close> is emitted, slot \<open>prev\<close> gets \<open>cur - prev - 1\<close> and \<open>prev\<close> moves
  to \<open>cur\<close>.
\<close>

inductive spec_patch ::
  "nat \<Rightarrow> nat \<Rightarrow> u32 list \<times> nat \<times> u32 list \<Rightarrow> u32 list \<times> nat \<times> u32 list \<Rightarrow> bool"
  for maxgap cur where
  compulsory_exception:
    "maxgap < cur - prev \<Longrightarrow> mid = prev + maxgap \<Longrightarrow>
     spec_patch maxgap cur (cc[prev := of_nat (maxgap - 1)], mid, exceptions @ [cc ! mid]) s' \<Longrightarrow>
     spec_patch maxgap cur (cc, prev, exceptions) s'"
| real_exception:
    "cur - prev \<le> maxgap \<Longrightarrow>
     spec_patch maxgap cur (cc, prev, exceptions)
       (cc[prev := of_nat (cur - prev - 1)], cur, exceptions @ [cc ! cur])"

code_pred spec_patch .

inductive spec_patch_all ::
  "nat \<Rightarrow> nat list \<Rightarrow> u32 list \<times> nat \<times> u32 list \<Rightarrow> u32 list \<times> nat \<times> u32 list \<Rightarrow> bool"
  for maxgap where
  no_exception: "spec_patch_all maxgap [] s s"
| next_exception:
    "spec_patch maxgap cur s s1 \<Longrightarrow> spec_patch_all maxgap curs s1 s' \<Longrightarrow>
     spec_patch_all maxgap (cur # curs) s s'"

code_pred spec_patch_all .

text \<open>
  An instance of the arithmetic that \<open>determineBestBase\<close> is given, over the rationals;
  it serves to run the model on concrete inputs.
\<close>

definition exact_ops :: "rat fp_ops" where
  "exact_ops = \<lparr>fp_of_nat = of_nat, fp_add = (+), fp_sub = (-), fp_mul = (*), fp_div = (/),
     fp_less = (<), fp_le = (\<le>)\<rparr>"

text \<open>
  A source of random numbers that always returns 0, and the round trip of the driver:
  \<open>decodeArray\<close> applied to the words and the word count that \<open>encodeArray\<close> returns.
\<close>

definition rand_zero :: "nat \<Rightarrow> nat" where
  "rand_zero i = 0"

definition decode_encoded ::
  "packer \<Rightarrow> 'd fp_ops \<Rightarrow> (nat \<Rightarrow> nat) \<Rightarrow> codec \<Rightarrow> u32 list \<Rightarrow> nat
     \<Rightarrow> error + (nat \<times> u32 list \<times> nat)" where
  "decode_encoded pk fp rnd c input nvalue =
     (case encodeArray pk fp rnd c input nvalue of
        Inl e \<Rightarrow> Inl e
      | Inr (c', out, n) \<Rightarrow> decodeArray pk out n)"

text \<open>
  Blocks to run the model on. \<open>block_a\<close> has the values \<open>k mod 4\<close> but for 1003, 1050, 1051
  and 1127 at the positions 3, 50, 51 and 127; \<open>block_b\<close> has 5 and 1 in front of 126
  zeros; \<open>block_c\<close> has the values \<open>k\<close> but for 200 and 324 at the positions 3 and 127.
\<close>

definition block_a :: "u32 list" where
  "block_a = map (\<lambda>k. if k \<in> {3, 50, 51, 127} then of_nat (1000 + k) else of_nat (k mod 4))
                 [0..<128]"


definition block_c :: "u32 list" where
  "block_c = map (\<lambda>k. if k \<in> {3, 127} then of_nat (197 + k) else of_nat k) [0..<128]"

section \<open>The constants\<close>

lemma BlockSize_eq: "BlockSize = 128"
  by (simp add: BlockSize_def BlockSizeInUnitsOfPackSize_def PACKSIZE_def)

section \<open>A packing primitive that keeps the low bits\<close>







lemma length_concat_uniform:
  "\<forall>x\<in>set xss. length x = n \<Longrightarrow> length (concat xss) = length xss * n"
  by (induction xss) auto












section \<open>Packing and unpacking a block\<close>

lemma length_packblock:
  assumes "pack_sized pk" "length source = BlockSize"
  shows "length (packblock pk source b) = BlockSizeInUnitsOfPackSize * b"
proof -
  have "length (fastpack pk (take PACKSIZE (drop (i * PACKSIZE) source)) b) = b"
    if "i < BlockSizeInUnitsOfPackSize" for i
    using that assms
    by (simp add: pack_sized_def BlockSize_def PACKSIZE_def BlockSizeInUnitsOfPackSize_def)
  then show ?thesis
    unfolding packblock_def
    by (subst length_concat_uniform [where n = b]) auto
qed

lemma length_unpackblock:
  assumes "pack_sized pk"
  shows "length (unpackblock pk source b) = BlockSize"
  unfolding unpackblock_def BlockSize_def PACKSIZE_def
  using assms by (subst length_concat_uniform [where n = 32]) (auto simp: pack_sized_def)



section \<open>The exception scan\<close>

lemma scan_fold:
  assumes "n \<le> length m0"
  shows "\<exists>m. fold (scan_step input maxgap) [0..<n] (m0, 0)
               = (m, length (filter (\<lambda>k. maxgap \<le> unat (input ! k)) [0..<n]))
             \<and> length m = length m0
             \<and> take (length (filter (\<lambda>k. maxgap \<le> unat (input ! k)) [0..<n])) m
                 = filter (\<lambda>k. maxgap \<le> unat (input ! k)) [0..<n]"
  using assms
proof (induction n)
  case 0
  show ?case by simp
next
  case (Suc n)
  let ?P = "\<lambda>k. maxgap \<le> unat (input ! k)"
  let ?E = "filter ?P [0..<n]"
  from Suc obtain m where m: "fold (scan_step input maxgap) [0..<n] (m0, 0) = (m, length ?E)"
    and len: "length m = length m0" and tk: "take (length ?E) m = ?E"
    by auto
  have cnt: "length ?E \<le> n"
    using length_filter_le [of ?P "[0..<n]"] by simp
  with Suc.prems len have inb: "length ?E < length m" by simp
  have step: "fold (scan_step input maxgap) [0..<Suc n] (m0, 0)
        = (m[length ?E := n], length ?E + (if ?P n then 1 else 0))"
    by (simp add: m scan_step_def)
  show ?case
  proof (cases "?P n")
    case True
    have "take (Suc (length ?E)) (m[length ?E := n]) = ?E @ [n]"
      using inb tk by (simp add: take_Suc_conv_app_nth)
    with True step len show ?thesis by simp
  next
    case False
    have "take (length ?E) (m[length ?E := n]) = ?E"
      using tk by simp
    with False step len show ?thesis by simp
  qed
qed

lemma strict_nth_mono:
  assumes "sorted_wrt (<) (E :: nat list)" "i < length E" "j < length E" "E ! i < E ! j"
  shows "i < j"
proof (rule ccontr)
  assume "\<not> i < j"
  then have "j = i \<or> j < i" by auto
  then show False
  proof
    assume "j = i" with assms show False by simp
  next
    assume "j < i"
    with assms(1,2) have "E ! j < E ! i"
      using sorted_wrt_nth_less by blast
    with assms show False by simp
  qed
qed

lemma exc_between_gen:
  assumes srt: "sorted_wrt (<) (E :: nat list)" and mem: "\<And>q. q \<in> set E \<longleftrightarrow> q < N \<and> P q"
    and k: "Suc k < length E" and lo: "E ! k < q" and hi: "q < E ! Suc k"
  shows "\<not> P q"
proof
  assume "P q"
  have "E ! Suc k \<in> set E" using k by simp
  then have "E ! Suc k < N" using mem by blast
  with hi \<open>P q\<close> have "q \<in> set E" using mem by simp
  then obtain j where j: "j < length E" "E ! j = q"
    by (auto simp: in_set_conv_nth)
  have "k < j" using strict_nth_mono [OF srt, of k j] k lo j by simp
  moreover have "j < Suc k" using strict_nth_mono [OF srt, of j "Suc k"] k hi j by simp
  ultimately show False by simp
qed

lemma exc_before_first_gen:
  assumes srt: "sorted_wrt (<) (E :: nat list)" and mem: "\<And>q. q \<in> set E \<longleftrightarrow> q < N \<and> P q"
    and ne: "E \<noteq> []" and lo: "q < E ! 0"
  shows "\<not> P q"
proof
  assume "P q"
  have "E ! 0 \<in> set E" using ne by simp
  then have "E ! 0 < N" using mem by blast
  with lo \<open>P q\<close> have "q \<in> set E" using mem by simp
  then obtain j where j: "j < length E" "E ! j = q"
    by (auto simp: in_set_conv_nth)
  have "j < 0" using strict_nth_mono [OF srt, of j 0] ne lo j by simp
  then show False by simp
qed

lemma exc_after_last_gen:
  assumes srt: "sorted_wrt (<) (E :: nat list)" and mem: "\<And>q. q \<in> set E \<longleftrightarrow> q < N \<and> P q"
    and ne: "E \<noteq> []" and lo: "last E < q" and hi: "q < N"
  shows "\<not> P q"
proof
  assume "P q"
  with hi have "q \<in> set E" using mem by simp
  then obtain j where j: "j < length E" "E ! j = q"
    by (auto simp: in_set_conv_nth)
  have l: "last E = E ! (length E - 1)" using ne by (simp add: last_conv_nth)
  have "length E - 1 < j"
    using strict_nth_mono [OF srt, of "length E - 1" j] ne lo j l by simp
  with j show False by simp
qed

lemma exception_positions_sorted: "sorted_wrt (<) (exception_positions input b)"
  by (simp add: exception_positions_def sorted_wrt_filter)

lemma exception_positions_mem:
  "q \<in> set (exception_positions input b) \<longleftrightarrow> q < BlockSize \<and> 2 ^ b \<le> unat (input ! q)"
  by (auto simp: exception_positions_def)

lemmas exc_between = exc_between_gen [OF exception_positions_sorted exception_positions_mem]
lemmas exc_before_first = exc_before_first_gen [OF exception_positions_sorted exception_positions_mem]
lemmas exc_after_last = exc_after_last_gen [OF exception_positions_sorted exception_positions_mem]

lemma exception_positions_bound:
  "k < length (exception_positions input b) \<Longrightarrow> exception_positions input b ! k < BlockSize"
  using exception_positions_mem [of "exception_positions input b ! k" input b] by simp


section \<open>The patching loops keep the chain invariant\<close>

lemma chain_ok_less: "chain_ok b cc (p # ps) \<Longrightarrow> \<forall>x \<in> set ps. p < x"
proof (induction ps arbitrary: p)
  case Nil
  show ?case by simp
next
  case (Cons p' ps)
  then have "p < p'" and "chain_ok b cc (p' # ps)" by simp_all
  with Cons.IH [of p'] show ?case by fastforce
qed

lemma chain_ok_sorted: "chain_ok b cc ps \<Longrightarrow> sorted_wrt (<) ps"
proof (induction ps)
  case Nil
  show ?case by simp
next
  case (Cons p ps)
  have "chain_ok b cc ps"
    using Cons.prems by (cases ps) simp_all
  with Cons.IH chain_ok_less [OF Cons.prems] show ?case by simp
qed

lemma chain_ok_update_other:
  "\<forall>x \<in> set ps. x \<noteq> q \<Longrightarrow> chain_ok b (cc[q := v]) ps = chain_ok b cc ps"
  by (induction b cc ps rule: chain_ok.induct) auto

lemma chain_ok_snoc:
  assumes "chain_ok b cc ps" "ps \<noteq> []" "last ps < length cc"
    and "last ps < p'" "p' - last ps \<le> 2 ^ b"
  shows "chain_ok b (cc[last ps := of_nat (p' - last ps - 1)]) (ps @ [p'])"
  using assms
proof (induction ps)
  case Nil
  then show ?case by simp
next
  case (Cons p ps)
  show ?case
  proof (cases ps)
    case Nil
    with Cons.prems show ?thesis by simp
  next
    case (Cons p2 rest)
    with Cons.prems have link: "p < p2" "p2 - p \<le> 2 ^ b" "cc ! p = of_nat (p2 - p - 1)"
      and tail: "chain_ok b cc ps" by simp_all
    have "\<forall>x \<in> set ps. p < x"
      using chain_ok_less [OF Cons.prems(1)] .
    moreover have "last ps \<in> set ps" using Cons by simp
    ultimately have "p < last ps" by blast
    then have ne: "p \<noteq> last (p # ps)" using Cons by simp
    have "chain_ok b (cc[last ps := of_nat (p' - last ps - 1)]) (ps @ [p'])"
      using Cons.IH tail Cons.prems Cons by simp
    with link ne Cons show ?thesis by simp
  qed
qed

lemma sorted_bounded_length:
  assumes "sorted_wrt (<) (ps :: nat list)" "\<forall>x \<in> set ps. x < n"
  shows "length ps \<le> n"
proof -
  have "distinct ps"
    using assms(1) by (simp add: strict_sorted_iff)
  then have "length ps = card (set ps)"
    by (simp add: distinct_card)
  also have "\<dots> \<le> card {..<n}"
    using assms(2) by (intro card_mono) auto
  finally show ?thesis by simp
qed

lemma patch_inv_link:
  assumes inv: "patch_inv blk b ex0 ps (cc, prev, ex)"
    and lt: "prev < p'" and bound: "p' < length blk" and gap: "p' - prev \<le> 2 ^ b"
    and clean: "\<forall>q. prev < q \<and> q < p' \<longrightarrow> unat (blk ! q) < 2 ^ b"
  shows "patch_inv blk b ex0 (ps @ [p'])
           (cc[prev := of_nat (p' - prev - 1)], p', ex @ [cc ! p'])"
proof -
  from inv have ps: "ps \<noteq> []" "last ps = prev" "prev < length blk" "length cc = length blk"
    and chain: "chain_ok b cc ps" and ex: "ex = ex0 @ map ((!) blk) ps"
    and above: "\<forall>q < length blk. prev \<le> q \<longrightarrow> cc ! q = blk ! q"
    and below: "\<forall>q < prev. q \<notin> set ps \<longrightarrow> cc ! q = blk ! q"
    and all_in: "\<forall>q \<le> prev. 2 ^ b \<le> unat (blk ! q) \<longrightarrow> q \<in> set ps"
    by (simp_all add: patch_inv_def)
  have prev_in: "prev \<in> set ps"
    using ps by (metis last_in_set)
  have c1: "chain_ok b (cc[prev := of_nat (p' - prev - 1)]) (ps @ [p'])"
    using chain_ok_snoc [OF chain ps(1), of p'] ps lt gap by simp
  have c2: "cc ! p' = blk ! p'"
    using above bound lt by simp
  have c3: "\<forall>q < length blk. p' \<le> q \<longrightarrow> cc[prev := of_nat (p' - prev - 1)] ! q = blk ! q"
    using above lt by simp
  have c4: "\<forall>q < p'. q \<notin> set (ps @ [p']) \<longrightarrow> cc[prev := of_nat (p' - prev - 1)] ! q = blk ! q"
  proof (intro allI impI)
    fix q assume q: "q < p'" "q \<notin> set (ps @ [p'])"
    with prev_in have ne: "q \<noteq> prev" by auto
    show "cc[prev := of_nat (p' - prev - 1)] ! q = blk ! q"
    proof (cases "q < prev")
      case True
      with below q ne show ?thesis by simp
    next
      case False
      with above q bound ne show ?thesis by simp
    qed
  qed
  have c5: "\<forall>q \<le> p'. 2 ^ b \<le> unat (blk ! q) \<longrightarrow> q \<in> set (ps @ [p'])"
  proof (intro allI impI)
    fix q assume q: "q \<le> p'" "2 ^ b \<le> unat (blk ! q)"
    show "q \<in> set (ps @ [p'])"
    proof (cases "q \<le> prev")
      case True
      with all_in q show ?thesis by simp
    next
      case False
      with clean q have "q = p'"
        by (metis le_neq_implies_less not_le)
      then show ?thesis by simp
    qed
  qed
  show ?thesis
    unfolding patch_inv_def using c1 c2 c3 c4 c5 ps ex bound by simp
qed

lemma patch_inv_length:
  assumes "patch_inv blk b ex0 ps (cc, prev, ex)"
  shows "length ps \<le> length blk" and "sorted_wrt (<) ps" and "\<forall>x \<in> set ps. x \<le> prev"
proof -
  from assms have ps: "ps \<noteq> []" "last ps = prev" "prev < length blk"
    and chain: "chain_ok b cc ps"
    by (simp_all add: patch_inv_def)
  show srt: "sorted_wrt (<) ps"
    using chain by (rule chain_ok_sorted)
  show le: "\<forall>x \<in> set ps. x \<le> prev"
  proof
    fix x assume "x \<in> set ps"
    then obtain i where i: "i < length ps" "ps ! i = x"
      by (auto simp: in_set_conv_nth)
    show "x \<le> prev"
    proof (cases "i = length ps - 1")
      case True
      with i ps show ?thesis by (simp add: last_conv_nth)
    next
      case False
      with i have "i < length ps - 1" by simp
      with srt i have "ps ! i < ps ! (length ps - 1)"
        using sorted_wrt_nth_less [of "(<)" ps i "length ps - 1"] by simp
      with i ps show ?thesis by (simp add: last_conv_nth)
    qed
  qed
  with ps have "\<forall>x \<in> set ps. x < length blk" by auto
  with srt show "length ps \<le> length blk"
    by (rule sorted_bounded_length)
qed

lemma compulsory_inv:
  assumes "patch_inv blk b ex0 ps s" "fst (snd s) < cur" "cur < length blk"
    and "\<forall>q. fst (snd s) < q \<and> q < cur \<longrightarrow> unat (blk ! q) < 2 ^ b"
  shows "\<exists>ps' cc' prev' ex'. compulsory b cur s = (cc', prev', ex')
            \<and> patch_inv blk b ex0 ps' (cc', prev', ex') \<and> hd ps' = hd ps
            \<and> fst (snd s) \<le> prev' \<and> prev' < cur \<and> cur \<le> prev' + 2 ^ b"
  using assms
proof (induction b cur s arbitrary: ps rule: compulsory.induct)
  case (1 b cur cc prev ex)
  from "1.prems" have inv: "patch_inv blk b ex0 ps (cc, prev, ex)" and lt: "prev < cur"
    and bound: "cur < length blk"
    and clean: "\<forall>q. prev < q \<and> q < cur \<longrightarrow> unat (blk ! q) < 2 ^ b"
    by simp_all
  show ?case
  proof (cases "2 ^ b + prev < cur")
    case False
    then have "compulsory b cur (cc, prev, ex) = (cc, prev, ex)"
      by (simp add: compulsory.simps)
    with inv lt False show ?thesis by auto
  next
    case True
    let ?s = "(cc[prev := of_nat (2 ^ b - 1)], prev + 2 ^ b, ex @ [cc ! (prev + 2 ^ b)])"
    have unfold: "compulsory b cur (cc, prev, ex) = compulsory b cur ?s"
      using True by (subst compulsory.simps) (simp add: Let_def)
    have pos: "(0::nat) < 2 ^ b" by simp
    have inv': "patch_inv blk b ex0 (ps @ [prev + 2 ^ b]) ?s"
      using patch_inv_link [OF inv, of "prev + 2 ^ b"] True bound clean pos by simp
    have "\<exists>ps' cc' prev' ex'. compulsory b cur ?s = (cc', prev', ex')
            \<and> patch_inv blk b ex0 ps' (cc', prev', ex') \<and> hd ps' = hd (ps @ [prev + 2 ^ b])
            \<and> fst (snd ?s) \<le> prev' \<and> prev' < cur \<and> cur \<le> prev' + 2 ^ b"
    proof (rule "1.IH" [OF refl _ refl inv'])
      show "2 ^ b + prev < cur" by (rule True)
      show "fst (snd ?s) < cur" using True by simp
      show "cur < length blk" by (rule bound)
      show "\<forall>q. fst (snd ?s) < q \<and> q < cur \<longrightarrow> unat (blk ! q) < 2 ^ b"
        using clean by simp
    qed
    moreover have "ps \<noteq> []" using inv by (simp add: patch_inv_def)
    ultimately show ?thesis
      unfolding unfold by fastforce
  qed
qed

lemma patch_body_inv:
  assumes inv: "patch_inv blk b ex0 ps (cc, prev, ex)" and len: "length blk = BlockSize"
    and lt: "prev < m ! i" and bound: "m ! i < BlockSize"
    and clean: "\<forall>q. prev < q \<and> q < m ! i \<longrightarrow> unat (blk ! q) < 2 ^ b"
  shows "\<exists>ps' cc' ex'. patch_body b m i (cc, prev, ex) = (cc', m ! i, ex')
            \<and> patch_inv blk b ex0 ps' (cc', m ! i, ex') \<and> hd ps' = hd ps"
proof (cases "(2::nat) ^ b < BlockSize")
  case True
  let ?cur = "m ! i"
  from compulsory_inv [OF inv, of ?cur] lt bound len clean
  obtain ps' cc' prev' ex' where c: "compulsory b ?cur (cc, prev, ex) = (cc', prev', ex')"
    and inv': "patch_inv blk b ex0 ps' (cc', prev', ex')" and hd: "hd ps' = hd ps"
    and rel: "prev \<le> prev'" "prev' < ?cur" "?cur \<le> prev' + 2 ^ b"
    by auto
  have ne: "ps' \<noteq> []" using inv' by (simp add: patch_inv_def)
  have "patch_inv blk b ex0 (ps' @ [?cur])
          (cc'[prev' := of_nat (?cur - prev' - 1)], ?cur, ex' @ [cc' ! ?cur])"
    using patch_inv_link [OF inv', of ?cur] rel bound len clean by simp
  moreover have "patch_body b m i (cc, prev, ex)
        = (cc'[prev' := of_nat (?cur - prev' - 1)], ?cur, ex' @ [cc' ! ?cur])"
    using True by (simp add: patch_body_def patch_compulsory_def c patch_plain_def Let_def)
  ultimately show ?thesis using hd ne by fastforce
next
  case False
  let ?cur = "m ! i"
  have ne: "ps \<noteq> []" using inv by (simp add: patch_inv_def)
  have "?cur - prev \<le> 2 ^ b" using False bound by simp
  then have "patch_inv blk b ex0 (ps @ [?cur])
          (cc[prev := of_nat (?cur - prev - 1)], ?cur, ex @ [cc ! ?cur])"
    using patch_inv_link [OF inv, of ?cur] lt bound len clean by simp
  moreover have "patch_body b m i (cc, prev, ex)
        = (cc[prev := of_nat (?cur - prev - 1)], ?cur, ex @ [cc ! ?cur])"
    using False by (simp add: patch_body_def patch_plain_def Let_def)
  ultimately show ?thesis using ne by fastforce
qed

lemma patch_inv_init:
  assumes len: "length blk = BlockSize" and ne: "exception_positions blk b \<noteq> []"
  shows "patch_inv blk b ex0 [exception_positions blk b ! 0]
           (blk, exception_positions blk b ! 0, ex0 @ [blk ! (exception_positions blk b ! 0)])"
proof -
  let ?fe = "exception_positions blk b ! 0"
  have "?fe < BlockSize" using ne by (intro exception_positions_bound) simp
  moreover have "\<forall>q \<le> ?fe. 2 ^ b \<le> unat (blk ! q) \<longrightarrow> q = ?fe"
    using exc_before_first [OF ne] by (metis le_neq_implies_less)
  ultimately show ?thesis
    using len by (simp add: patch_inv_def)
qed

lemma patch_fold:
  assumes len: "length blk = BlockSize" and ne: "exception_positions blk b \<noteq> []"
    and m: "take (length (exception_positions blk b)) m = exception_positions blk b"
    and n: "1 \<le> n" "n \<le> length (exception_positions blk b)"
  shows "\<exists>ps cc ex. fold (patch_body b m) [1..<n]
              (blk, exception_positions blk b ! 0, ex0 @ [blk ! (exception_positions blk b ! 0)])
            = (cc, exception_positions blk b ! (n - 1), ex)
          \<and> patch_inv blk b ex0 ps (cc, exception_positions blk b ! (n - 1), ex)
          \<and> hd ps = exception_positions blk b ! 0"
  using n
proof (induction n rule: nat_induct_at_least)
  case base
  show ?case using patch_inv_init [OF len ne, of ex0] by auto
next
  case (Suc n)
  let ?E = "exception_positions blk b"
  let ?start = "(blk, ?E ! 0, ex0 @ [blk ! (?E ! 0)])"
  from Suc obtain ps cc ex where f: "fold (patch_body b m) [1..<n] ?start = (cc, ?E ! (n - 1), ex)"
    and inv: "patch_inv blk b ex0 ps (cc, ?E ! (n - 1), ex)" and hd: "hd ps = ?E ! 0"
    by auto
  from Suc have nlt: "n < length ?E" by simp
  have mn: "m ! n = ?E ! n"
    using nlt m by (metis nth_take)
  have k: "Suc (n - 1) = n" using Suc by simp
  have lt: "?E ! (n - 1) < m ! n"
    using sorted_wrt_nth_less [OF exception_positions_sorted, of "n - 1" n blk b] nlt Suc mn
    by simp
  have bound: "m ! n < BlockSize"
    using exception_positions_bound [OF nlt] mn by simp
  have clean: "\<forall>q. ?E ! (n - 1) < q \<and> q < m ! n \<longrightarrow> unat (blk ! q) < 2 ^ b"
    using exc_between [of "n - 1" blk b] nlt k mn by (simp add: not_le)
  from patch_body_inv [OF inv len lt bound clean]
  obtain ps' cc' ex' where "patch_body b m n (cc, ?E ! (n - 1), ex) = (cc', m ! n, ex')"
    and "patch_inv blk b ex0 ps' (cc', m ! n, ex')" and "hd ps' = hd ps"
    by auto
  moreover have "fold (patch_body b m) [1..<Suc n] ?start
      = patch_body b m n (fold (patch_body b m) [1..<n] ?start)"
    using Suc by simp
  ultimately show ?case using f hd mn by auto
qed

lemma fold_if: "(if c then fold f xs s else fold g xs s) = fold (if c then f else g) xs s"
  by simp

lemma compressblockPFOR_32:
  "length blk = BlockSize \<Longrightarrow> compressblockPFOR pk c blk 32 ex0 = (c, blk, ex0, BlockSize)"
  by (simp add: compressblockPFOR_def)

lemma scan_block:
  assumes "length (miss c) = BlockSize"
  shows "\<exists>m. fold (scan_step blk (2 ^ b)) [0..<BlockSize] (miss c, 0)
               = (m, length (exception_positions blk b))
             \<and> length m = BlockSize
             \<and> take (length (exception_positions blk b)) m = exception_positions blk b"
  using scan_fold [of BlockSize "miss c" blk "2 ^ b"] assms
  by (simp add: exception_positions_def)

lemma compressblockPFOR_clean:
  assumes len: "length blk = BlockSize" and b: "b \<noteq> 32" and lm: "length (miss c) = BlockSize"
    and E: "exception_positions blk b = []"
  shows "\<exists>m. compressblockPFOR pk c blk b ex0 = (c\<lparr>miss := m\<rparr>, packblock pk blk b, ex0, BlockSize)
             \<and> length m = BlockSize"
proof -
  from scan_block [OF lm, of blk b] E
  obtain m where "fold (scan_step blk (2 ^ b)) [0..<BlockSize] (miss c, 0) = (m, 0)"
    and "length m = BlockSize"
    by auto
  then have "compressblockPFOR pk c blk b ex0 = (c\<lparr>miss := m\<rparr>, packblock pk blk b, ex0, BlockSize)"
    and "length m = BlockSize"
    using b by (simp_all add: compressblockPFOR_def)
  then show ?thesis by blast
qed

lemma compressblockPFOR_patched:
  assumes len: "length blk = BlockSize" and b: "b \<noteq> 32" and lm: "length (miss c) = BlockSize"
    and E: "exception_positions blk b \<noteq> []"
  shows "\<exists>m cc ps. compressblockPFOR pk c blk b ex0
               = (\<lparr>codedcopy = cc, miss = m\<rparr>, packblock pk cc b, ex0 @ map ((!) blk) ps,
                  exception_positions blk b ! 0)
             \<and> length m = BlockSize
             \<and> take (length (exception_positions blk b)) m = exception_positions blk b
             \<and> patch_inv blk b ex0 ps
                  (cc, last (exception_positions blk b), ex0 @ map ((!) blk) ps)
             \<and> hd ps = exception_positions blk b ! 0"
proof -
  let ?E = "exception_positions blk b"
  from scan_block [OF lm, of blk b]
  obtain m where scan: "fold (scan_step blk (2 ^ b)) [0..<BlockSize] (miss c, 0) = (m, length ?E)"
    and lenm: "length m = BlockSize" and tk: "take (length ?E) m = ?E"
    by auto
  have pos: "1 \<le> length ?E" using E by (cases ?E) simp_all
  from patch_fold [OF len E tk pos order_refl, of ex0]
  obtain ps cc ex where f: "fold (patch_body b m) [1..<length ?E]
              (blk, ?E ! 0, ex0 @ [blk ! (?E ! 0)]) = (cc, ?E ! (length ?E - 1), ex)"
    and inv: "patch_inv blk b ex0 ps (cc, ?E ! (length ?E - 1), ex)" and hd: "hd ps = ?E ! 0"
    by auto
  have last: "?E ! (length ?E - 1) = last ?E"
    using E by (simp add: last_conv_nth)
  have ex: "ex = ex0 @ map ((!) blk) ps"
    using inv by (simp add: patch_inv_def)
  have m0: "m ! 0 = ?E ! 0"
    using tk pos by (metis Suc_le_lessD One_nat_def nth_take)
  have "compressblockPFOR pk c blk b ex0 = (\<lparr>codedcopy = cc, miss = m\<rparr>, packblock pk cc b, ex, ?E ! 0)"
    using b E len f
    by (simp add: compressblockPFOR_def scan Let_def fold_if m0
          patch_body_def [symmetric])
  with lenm tk inv hd last ex show ?thesis by auto
qed









lemma no_exceptions_small:
  assumes "exception_positions blk b = []" "q < BlockSize"
  shows "unat (blk ! q) < 2 ^ b"
proof (rule ccontr)
  assume "\<not> unat (blk ! q) < 2 ^ b"
  with assms(2) have "q \<in> set (exception_positions blk b)"
    by (simp add: exception_positions_mem)
  with assms(1) show False by simp
qed



lemma compress_shape:
  assumes len: "length blk = BlockSize" and b: "b \<le> 32" and lm: "length (miss c) = BlockSize"
  shows "\<exists>c' packed ps fe. compressblockPFOR pk c blk b ex0
              = (c', packed, ex0 @ map ((!) blk) ps, fe)
          \<and> sorted_wrt (<) ps \<and> (\<forall>p \<in> set ps. p < BlockSize) \<and> length ps \<le> BlockSize
          \<and> length (miss c') = BlockSize \<and> fe \<le> BlockSize
          \<and> (pack_sized pk \<longrightarrow> length packed = BlockSizeInUnitsOfPackSize * b)"
proof -
  let ?E = "exception_positions blk b"
  consider (raw) "b = 32" | (clean) "b < 32" "?E = []" | (patched) "b < 32" "?E \<noteq> []"
    using b by fastforce
  then show ?thesis
  proof cases
    case raw
    have c: "compressblockPFOR pk c blk b ex0 = (c, blk, ex0 @ map ((!) blk) [], BlockSize)"
      using raw len by (simp add: compressblockPFOR_32)
    have l: "length blk = BlockSizeInUnitsOfPackSize * b"
      using raw len by (simp add: BlockSize_def PACKSIZE_def)
    show ?thesis
      apply (rule exI [of _ c], rule exI [of _ blk], rule exI [of _ "[]"], rule exI [of _ BlockSize])
      using c l lm
      by simp
  next
    case clean
    from compressblockPFOR_clean [OF len _ lm clean(2), where pk = pk and ?ex0.0 = ex0] clean(1)
    obtain m where c: "compressblockPFOR pk c blk b ex0
          = (c\<lparr>miss := m\<rparr>, packblock pk blk b, ex0 @ map ((!) blk) [], BlockSize)"
      and m: "length m = BlockSize"
      by auto
    show ?thesis
      apply (rule exI [of _ "c\<lparr>miss := m\<rparr>"], rule exI [of _ "packblock pk blk b"], rule exI [of _ "[]"], rule exI [of _ BlockSize])
      using c m length_packblock [OF _ len, of pk b]
      by simp
  next
    case patched
    from compressblockPFOR_patched [OF len _ lm patched(2), where pk = pk and ?ex0.0 = ex0] patched(1)
    obtain m cc ps where c: "compressblockPFOR pk c blk b ex0
               = (\<lparr>codedcopy = cc, miss = m\<rparr>, packblock pk cc b, ex0 @ map ((!) blk) ps, ?E ! 0)"
      and m: "length m = BlockSize"
      and inv: "patch_inv blk b ex0 ps (cc, last ?E, ex0 @ map ((!) blk) ps)"
      by auto
    have lps: "length ps \<le> BlockSize"
      using patch_inv_length(1) [OF inv] len by simp
    have lcc: "length cc = BlockSize"
      using inv len by (simp add: patch_inv_def)
    have "last ?E < length blk" using inv by (simp add: patch_inv_def)
    with patch_inv_length(3) [OF inv] len have bnd: "\<forall>p \<in> set ps. p < BlockSize" by auto
    have fe: "?E ! 0 \<le> BlockSize"
      using exception_positions_bound [of 0 blk b] patched(2) by (simp add: less_imp_le)
    show ?thesis
      apply (rule exI [of _ "\<lparr>codedcopy = cc, miss = m\<rparr>"], rule exI [of _ "packblock pk cc b"], rule exI [of _ ps], rule exI [of _ "?E ! 0"])
      using c m lps bnd fe patch_inv_length(2) [OF inv] length_packblock [OF _ lcc, of pk b]
      by simp
  qed
qed


section \<open>Width selection and block headers\<close>

lemma blocksizeinbits_eq: "blocksizeinbits = 8"
  unfolding blocksizeinbits_def constexprbits_def BlockSize_eq
  by (simp add: bit_length.simps)

lemma firstexceptmask_eq: "firstexceptmask = 255"
  by (simp add: firstexceptmask_def blocksizeinbits_eq)

lemma maxsize_eq: "maxsize = 8388608"
  by (simp add: maxsize_def blocksizeinbits_eq)

lemma cost_step_fst:
  "fst (cost_step fp freqs n b s) = b \<or> fst (cost_step fp freqs n b s) = fst s"
  by (cases s) (simp add: cost_step_def Let_def)

lemma cost_fold_bound:
  "\<forall>b \<in> set bs. b \<le> 32 \<Longrightarrow> fst s \<le> 32 \<Longrightarrow> fst (fold (cost_step fp freqs n) bs s) \<le> 32"
proof (induction bs arbitrary: s)
  case Nil
  then show ?case by simp
next
  case (Cons b bs)
  have "fst (cost_step fp freqs n b s) \<le> 32"
    using cost_step_fst [of fp freqs n b s] Cons.prems by auto
  with Cons show ?case by simp
qed

lemma determineBestBase_le: "determineBestBase fp r input \<le> 32"
proof -
  have "fst (fold (cost_step fp freqs n) (rev [0..<32]) (32, 0, fp_of_nat fp 32)) \<le> 32" for freqs n
    by (rule cost_fold_bound) auto
  then show ?thesis
    by (simp add: determineBestBase_def Let_def case_prod_beta)
qed

lemma header_nat:
  "(fe AND firstexceptmask) OR push_bit blocksizeinbits ei
     = take_bit 8 fe OR push_bit 8 (ei :: nat)"
proof -
  have "(255 :: nat) = mask 8" by (simp add: mask_eq_exp_minus_1)
  then show ?thesis
    by (simp add: firstexceptmask_eq blocksizeinbits_eq take_bit_eq_mask)
qed

lemma header_unat:
  assumes "ei < 2 ^ 24"
  shows "unat (blockheader fe ei) = take_bit 8 fe OR push_bit 8 ei"
proof -
  have "take_bit 32 (take_bit 8 fe OR push_bit 8 ei) = take_bit 8 fe OR push_bit 8 ei"
    using assms by (simp add: take_bit_or take_bit_push_bit take_bit_nat_eq_self)
  then show ?thesis
    by (simp add: blockheader_def header_nat unat_of_nat take_bit_eq_mod)
qed

lemma header_fields:
  assumes "fe \<le> BlockSize" "ei < 2 ^ 24"
  shows "header_firstexcept (blockheader fe ei) = fe"
    and "header_exceptindex (blockheader fe ei) = ei"
proof -
  have fe: "take_bit 8 fe = fe"
    using assms(1) by (simp add: BlockSize_eq take_bit_nat_eq_self)
  have m: "unat (of_nat firstexceptmask :: u32) = mask 8"
    by (simp add: firstexceptmask_eq mask_eq_exp_minus_1)
  have "header_firstexcept (blockheader fe ei) = take_bit 8 (take_bit 8 fe OR push_bit 8 ei)"
    by (simp add: header_firstexcept_def unsigned_and_eq header_unat [OF assms(2)] m
          take_bit_eq_mask)
  also have "\<dots> = fe"
    by (simp add: take_bit_or take_bit_push_bit fe)
  finally show "header_firstexcept (blockheader fe ei) = fe" .
  have "header_exceptindex (blockheader fe ei) = drop_bit 8 (take_bit 8 fe OR push_bit 8 ei)"
    by (simp add: header_exceptindex_def blocksizeinbits_eq unat_drop_bit_eq
          header_unat [OF assms(2)])
  also have "\<dots> = ei"
    by (simp add: drop_bit_or drop_bit_take_bit drop_bit_push_bit)
  finally show "header_exceptindex (blockheader fe ei) = ei" .
qed

section \<open>The block encoder\<close>

lemma chain_ok_small:
  assumes "chain_ok b cc ps" "q \<in> set ps" "q \<noteq> last ps"
  shows "unat (cc ! q) < 2 ^ b"
  using assms
proof (induction b cc ps rule: chain_ok.induct)
  case (1 b cc p p' ps)
  from "1.prems"(1) have "p < p' \<and> p' - p \<le> 2 ^ b \<and> cc ! p = of_nat (p' - p - 1)
      \<and> chain_ok b cc (p' # ps)"
    by (simp only: chain_ok.simps)
  then have link: "p < p'" "p' - p \<le> 2 ^ b" "cc ! p = of_nat (p' - p - 1)"
    and tail: "chain_ok b cc (p' # ps)"
    by blast+
  show ?case
  proof (cases "q = p")
    case True
    have "unat (of_nat (p' - p - 1) :: u32) \<le> p' - p - 1"
      by (simp add: unat_of_nat)
    also have "\<dots> < 2 ^ b" using link(1,2) by simp
    finally show ?thesis using True link(3) by simp
  next
    case False
    with "1.prems" have "q \<in> set (p' # ps)" "q \<noteq> last (p' # ps)" by auto
    with "1.IH" tail show ?thesis by blast
  qed
qed simp_all

lemma exception_positions_32: "exception_positions blk 32 = []"
proof -
  have "unat (w :: u32) < 2 ^ 32" for w
    using unsigned_less [of w, where ?'a = nat] by simp
  then have "\<not> 2 ^ 32 \<le> unat (blk ! k)" for k
    by (simp add: not_le)
  then show ?thesis by (simp add: exception_positions_def)
qed

lemma exception_positions_empty_iff:
  "exception_positions blk b = [] \<longleftrightarrow> (\<forall>k<BlockSize. unat (blk ! k) < 2 ^ b)"
proof
  assume "exception_positions blk b = []"
  then show "\<forall>k<BlockSize. unat (blk ! k) < 2 ^ b"
    using no_exceptions_small by blast
next
  assume a: "\<forall>k<BlockSize. unat (blk ! k) < 2 ^ b"
  show "exception_positions blk b = []"
  proof (rule ccontr)
    assume "exception_positions blk b \<noteq> []"
    then obtain q where "q \<in> set (exception_positions blk b)"
      by (meson last_in_set)
    then have "q < BlockSize" "2 ^ b \<le> unat (blk ! q)"
      by (simp_all add: exception_positions_mem)
    with a show False by (simp add: not_le [symmetric])
  qed
qed

lemma compressblockPFOR_first:
  assumes len: "length blk = BlockSize" and b: "b \<le> 32" and lm: "length (miss c) = BlockSize"
  shows "snd (snd (snd (compressblockPFOR pk c blk b ex0)))
         = (if exception_positions blk b = [] then BlockSize else exception_positions blk b ! 0)"
proof -
  let ?E = "exception_positions blk b"
  consider (raw) "b = 32" | (clean) "b < 32" "?E = []" | (patched) "b < 32" "?E \<noteq> []"
    using b by fastforce
  then show ?thesis
  proof cases
    case raw
    then show ?thesis using len by (simp add: compressblockPFOR_32 exception_positions_32)
  next
    case clean
    with compressblockPFOR_clean [OF len _ lm clean(2), where pk = pk and ?ex0.0 = ex0] show ?thesis by auto
  next
    case patched
    with compressblockPFOR_patched [OF len _ lm patched(2), where pk = pk and ?ex0.0 = ex0] show ?thesis by auto
  qed
qed

section \<open>The patching loop and the specification\<close>

lemma spec_patch_fun:
  assumes "spec_patch (2 ^ b) cur s s'"
  shows "s' = patch_plain [cur] 0 (compulsory b cur s)"
  using assms
proof (induction rule: spec_patch.induct)
  case (compulsory_exception prev mid cc exceptions s')
  then have "2 ^ b + prev < cur" by simp
  then have "compulsory b cur (cc, prev, exceptions)
      = compulsory b cur (cc[prev := of_nat (2 ^ b - 1)], mid, exceptions @ [cc ! mid])"
    using compulsory_exception.hyps(2) by (subst compulsory.simps) (simp add: Let_def)
  with compulsory_exception.IH show ?case by simp
next
  case (real_exception prev cc exceptions)
  then have "\<not> 2 ^ b + prev < cur" by simp
  then have "compulsory b cur (cc, prev, exceptions) = (cc, prev, exceptions)"
    by (subst compulsory.simps) (simp add: Let_def)
  then show ?case by (simp add: patch_plain_def Let_def)
qed

lemma compulsory_spec:
  "spec_patch (2 ^ b) cur (compulsory b cur s) s' \<Longrightarrow> spec_patch (2 ^ b) cur s s'"
proof (induction b cur s rule: compulsory.induct)
  case (1 b cur cc prev exceptions)
  show ?case
  proof (cases "2 ^ b + prev < cur")
    case True
    let ?s = "(cc[prev := of_nat (2 ^ b - 1)], prev + 2 ^ b, exceptions @ [cc ! (prev + 2 ^ b)])"
    have u: "compulsory b cur (cc, prev, exceptions) = compulsory b cur ?s"
      using True by (subst compulsory.simps) (simp add: Let_def)
    have "spec_patch (2 ^ b) cur ?s s'"
      using "1.IH" [OF refl True refl] "1.prems" u by simp
    moreover have "2 ^ b < cur - prev" using True by simp
    ultimately show ?thesis
      using spec_patch.compulsory_exception [of "2 ^ b" cur prev "prev + 2 ^ b" cc exceptions s']
      by simp
  next
    case False
    then have "compulsory b cur (cc, prev, exceptions) = (cc, prev, exceptions)"
      by (subst compulsory.simps) (simp add: Let_def)
    with "1.prems" show ?thesis by simp
  qed
qed

lemma compulsory_stops:
  "fst (snd (compulsory b cur s)) = prev' \<Longrightarrow> cur - prev' \<le> 2 ^ b"
proof (induction b cur s rule: compulsory.induct)
  case (1 b cur cc prev exceptions)
  show ?case
  proof (cases "2 ^ b + prev < cur")
    case True
    let ?s = "(cc[prev := of_nat (2 ^ b - 1)], prev + 2 ^ b, exceptions @ [cc ! (prev + 2 ^ b)])"
    have u: "compulsory b cur (cc, prev, exceptions) = compulsory b cur ?s"
      using True by (subst compulsory.simps) (simp add: Let_def)
    show ?thesis
      using "1.IH" [OF refl True refl] "1.prems" u by simp
  next
    case False
    then have "compulsory b cur (cc, prev, exceptions) = (cc, prev, exceptions)"
      by (subst compulsory.simps) (simp add: Let_def)
    with "1.prems" False show ?thesis by auto
  qed
qed

lemma patch_compulsory_spec:
  "spec_patch (2 ^ b) (m ! i) s s' \<longleftrightarrow> s' = patch_compulsory b m i s"
proof
  assume "spec_patch (2 ^ b) (m ! i) s s'"
  then have "s' = patch_plain [m ! i] 0 (compulsory b (m ! i) s)"
    by (rule spec_patch_fun)
  then show "s' = patch_compulsory b m i s"
    by (simp add: patch_compulsory_def patch_plain_def)
next
  assume s': "s' = patch_compulsory b m i s"
  obtain cc prev ex where c: "compulsory b (m ! i) s = (cc, prev, ex)"
    by (metis prod_cases3)
  have "m ! i - prev \<le> 2 ^ b"
    using compulsory_stops [of b "m ! i" s prev] c by simp
  then have "spec_patch (2 ^ b) (m ! i) (cc, prev, ex)
      (cc[prev := of_nat (m ! i - prev - 1)], m ! i, ex @ [cc ! (m ! i)])"
    by (rule spec_patch.real_exception)
  then have "spec_patch (2 ^ b) (m ! i) (compulsory b (m ! i) s) s'"
    using c s' by (simp add: patch_compulsory_def patch_plain_def Let_def)
  then show "spec_patch (2 ^ b) (m ! i) s s'"
    by (rule compulsory_spec)
qed

lemma patch_fold_spec:
  "spec_patch_all (2 ^ b) (map ((!) m) is) s s' \<longleftrightarrow> s' = fold (patch_compulsory b m) is s"
proof (induction "is" arbitrary: s)
  case Nil
  show ?case by (auto intro: spec_patch_all.intros elim: spec_patch_all.cases)
next
  case (Cons i "is")
  show ?case
  proof
    assume "spec_patch_all (2 ^ b) (map ((!) m) (i # is)) s s'"
    then obtain s1 where "spec_patch (2 ^ b) (m ! i) s s1"
      and "spec_patch_all (2 ^ b) (map ((!) m) is) s1 s'"
      by (auto elim: spec_patch_all.cases)
    then show "s' = fold (patch_compulsory b m) (i # is) s"
      using Cons.IH patch_compulsory_spec by simp
  next
    assume "s' = fold (patch_compulsory b m) (i # is) s"
    then have "spec_patch_all (2 ^ b) (map ((!) m) is) (patch_compulsory b m i s) s'"
      using Cons.IH by simp
    moreover have "spec_patch (2 ^ b) (m ! i) s (patch_compulsory b m i s)"
      using patch_compulsory_spec by blast
    ultimately show "spec_patch_all (2 ^ b) (map ((!) m) (i # is)) s s'"
      by (auto intro: spec_patch_all.intros)
  qed
qed

lemma compressblockPFOR_fold:
  assumes len: "length blk = BlockSize" and b: "b \<noteq> 32" and lm: "length (miss c) = BlockSize"
    and E: "exception_positions blk b \<noteq> []"
  shows "\<exists>m. compressblockPFOR pk c blk b ex0
               = (case fold (patch_body b m) [1..<length (exception_positions blk b)]
                         (blk, exception_positions blk b ! 0,
                          ex0 @ [blk ! (exception_positions blk b ! 0)]) of
                    (cc, prev, ex) \<Rightarrow>
                      (\<lparr>codedcopy = cc, miss = m\<rparr>, packblock pk cc b, ex,
                       exception_positions blk b ! 0))
             \<and> length m = BlockSize
             \<and> take (length (exception_positions blk b)) m = exception_positions blk b"
proof -
  let ?E = "exception_positions blk b"
  from scan_block [OF lm, of blk b]
  obtain m where scan: "fold (scan_step blk (2 ^ b)) [0..<BlockSize] (miss c, 0) = (m, length ?E)"
    and lenm: "length m = BlockSize" and tk: "take (length ?E) m = ?E"
    by auto
  have pos: "1 \<le> length ?E" using E by (cases ?E) simp_all
  have m0: "m ! 0 = ?E ! 0"
    using tk pos by (metis Suc_le_lessD One_nat_def nth_take)
  have "compressblockPFOR pk c blk b ex0
      = (case fold (patch_body b m) [1..<length ?E] (blk, ?E ! 0, ex0 @ [blk ! (?E ! 0)]) of
           (cc, prev, ex) \<Rightarrow> (\<lparr>codedcopy = cc, miss = m\<rparr>, packblock pk cc b, ex, ?E ! 0))"
    using b E len
    by (simp add: compressblockPFOR_def scan Let_def fold_if m0 patch_body_def [symmetric])
  with lenm tk show ?thesis by blast
qed

lemma compulsory_idle: "cur \<le> 2 ^ b + fst (snd s) \<Longrightarrow> compulsory b cur s = s"
  by (cases s) (simp add: compulsory.simps Let_def)

lemma patch_body_compulsory:
  assumes "take n m = E" "\<forall>i<length E. E ! i < BlockSize" "n = length E"
  shows "fold (patch_body b m) [1..<n] s = fold (patch_compulsory b m) [1..<n] s"
proof (cases "(2::nat) ^ b < BlockSize")
  case True
  then show ?thesis by (simp add: patch_body_def)
next
  case False
  have "patch_plain m i = patch_compulsory b m i" if "i \<in> set [1..<n]" for i
  proof
    fix t :: "u32 list \<times> nat \<times> u32 list"
    from that assms(3) have i: "i < length E" by simp
    then have "take n m ! i = m ! i" using assms(3) by simp
    then have "m ! i = E ! i" using assms(1) by simp
    moreover have "E ! i < BlockSize" using assms(2) i by simp
    ultimately have "m ! i \<le> 2 ^ b + fst (snd t)" using False by simp
    then show "patch_plain m i t = patch_compulsory b m i t"
      by (simp add: patch_compulsory_def compulsory_idle)
  qed
  then have "fold (patch_plain m) [1..<n] s = fold (patch_compulsory b m) [1..<n] s"
    by (intro List.fold_cong) auto
  with False show ?thesis by (simp add: patch_body_def)
qed

lemma map_nth_tl:
  assumes "take (length E) m = E"
  shows "map ((!) m) [1..<length E] = tl E"
proof (rule nth_equalityI)
  show "length (map ((!) m) [1..<length E]) = length (tl E)" by simp
next
  fix i assume "i < length (map ((!) m) [1..<length E])"
  then have i: "Suc i < length E" by simp
  then have "m ! Suc i = E ! Suc i"
    using assms by (metis nth_take)
  with i show "map ((!) m) [1..<length E] ! i = tl E ! i"
    by (simp add: nth_tl)
qed

lemma patch_fold_plain:
  assumes len: "length blk = BlockSize" and ne: "exception_positions blk b \<noteq> []"
    and m: "take (length (exception_positions blk b)) m = exception_positions blk b"
    and big: "BlockSize \<le> 2 ^ b"
    and n: "1 \<le> n" "n \<le> length (exception_positions blk b)"
  shows "\<exists>cc. fold (patch_body b m) [1..<n]
              (blk, exception_positions blk b ! 0, ex0 @ [blk ! (exception_positions blk b ! 0)])
            = (cc, exception_positions blk b ! (n - 1),
               ex0 @ map ((!) blk) (take n (exception_positions blk b)))
          \<and> patch_inv blk b ex0 (take n (exception_positions blk b))
               (cc, exception_positions blk b ! (n - 1),
                ex0 @ map ((!) blk) (take n (exception_positions blk b)))"
  using n
proof (induction n rule: nat_induct_at_least)
  case base
  have "take 1 (exception_positions blk b) = [exception_positions blk b ! 0]"
    using ne by (cases "exception_positions blk b") simp_all
  then show ?case using patch_inv_init [OF len ne, of ex0] by simp
next
  case (Suc n)
  let ?E = "exception_positions blk b"
  let ?start = "(blk, ?E ! 0, ex0 @ [blk ! (?E ! 0)])"
  let ?ex = "ex0 @ map ((!) blk) (take n ?E)"
  from Suc obtain cc where f: "fold (patch_body b m) [1..<n] ?start = (cc, ?E ! (n - 1), ?ex)"
    and inv: "patch_inv blk b ex0 (take n ?E) (cc, ?E ! (n - 1), ?ex)"
    by auto
  from Suc have nlt: "n < length ?E" by simp
  have mn: "m ! n = ?E ! n"
    using nlt m by (metis nth_take)
  have k: "Suc (n - 1) = n" using Suc by simp
  have lt: "?E ! (n - 1) < ?E ! n"
    using sorted_wrt_nth_less [OF exception_positions_sorted, of "n - 1" n blk b] nlt Suc
    by simp
  have bound: "?E ! n < BlockSize"
    using exception_positions_bound [OF nlt] .
  have clean: "\<forall>q. ?E ! (n - 1) < q \<and> q < ?E ! n \<longrightarrow> unat (blk ! q) < 2 ^ b"
    using exc_between [of "n - 1" blk b] nlt k by (simp add: not_le)
  have gap: "?E ! n - ?E ! (n - 1) \<le> 2 ^ b"
    using bound big by simp
  have tk: "take n ?E @ [?E ! n] = take (Suc n) ?E"
    using nlt by (simp add: take_Suc_conv_app_nth)
  have inv': "patch_inv blk b ex0 (take (Suc n) ?E)
      (cc[?E ! (n - 1) := of_nat (?E ! n - ?E ! (n - 1) - 1)], ?E ! n, ?ex @ [cc ! (?E ! n)])"
    using patch_inv_link [OF inv lt _ gap clean] bound len tk by simp
  then have ex': "?ex @ [cc ! (?E ! n)] = ex0 @ map ((!) blk) (take (Suc n) ?E)"
    by (simp add: patch_inv_def)
  have "\<not> (2::nat) ^ b < BlockSize" using big by simp
  then have "patch_body b m n (cc, ?E ! (n - 1), ?ex)
      = (cc[?E ! (n - 1) := of_nat (?E ! n - ?E ! (n - 1) - 1)], ?E ! n, ?ex @ [cc ! (?E ! n)])"
    by (simp add: patch_body_def patch_plain_def Let_def mn)
  moreover have "fold (patch_body b m) [1..<Suc n] ?start
      = patch_body b m n (fold (patch_body b m) [1..<n] ?start)"
    using Suc by simp
  ultimately have "fold (patch_body b m) [1..<Suc n] ?start
      = (cc[?E ! (n - 1) := of_nat (?E ! n - ?E ! (n - 1) - 1)], ?E ! n,
         ex0 @ map ((!) blk) (take (Suc n) ?E))"
    using f ex' by simp
  with inv' ex' show ?case by auto
qed

section \<open>The claims\<close>




text \<open>
  C3 as it is stated fails: the scratch copy handed to the packing primitive is not free
  of values \<open>>= 2^b\<close>, since the slot of the last exception keeps its raw value. In the
  block \<open>5, 0, ..., 0\<close> at width 1 the copy still holds 5 at position 0.
\<close>

theorem scratch_copy_keeps_last_exception:
  "exception_positions (5 # replicate 127 0) 1 = [0]
   \<and> \<not> unat (codedcopy (fst (compressblockPFOR bit_packer PFor (5 # replicate 127 0) 1 [])) ! 0) < 2 ^ 1"
  by code_simp

text \<open>
  C3, amended: in the scratch copy handed to the packing primitive every slot but that of
  the block's last exception holds a value below \<open>2^b\<close>; the slot of the last exception
  holds the raw value, which is \<open>>= 2^b\<close>.
\<close>

theorem scratch_copy_small_but_last:
  assumes "length blk = BlockSize" and "b < 32" and "length (miss c) = BlockSize"
    and "exception_positions blk b \<noteq> []"
  shows "case compressblockPFOR pk c blk b ex0 of
           (c', packed, exceptions', firstexcept) \<Rightarrow>
             packed = packblock pk (codedcopy c') b
             \<and> length (codedcopy c') = BlockSize
             \<and> (\<forall>q<BlockSize. q \<noteq> last (exception_positions blk b)
                    \<longrightarrow> unat (codedcopy c' ! q) < 2 ^ b)
             \<and> codedcopy c' ! last (exception_positions blk b)
                 = blk ! last (exception_positions blk b)
             \<and> 2 ^ b \<le> unat (blk ! last (exception_positions blk b))"
proof -
  let ?E = "exception_positions blk b"
  let ?prev = "last ?E"
  from compressblockPFOR_patched [OF assms(1) _ assms(3,4), where pk = pk and ?ex0.0 = ex0] assms(2)
  obtain m cc ps where c: "compressblockPFOR pk c blk b ex0
               = (\<lparr>codedcopy = cc, miss = m\<rparr>, packblock pk cc b, ex0 @ map ((!) blk) ps, ?E ! 0)"
    and inv: "patch_inv blk b ex0 ps (cc, ?prev, ex0 @ map ((!) blk) ps)"
    by auto
  from inv have ps: "ps \<noteq> []" "last ps = ?prev" "?prev < length blk" "length cc = length blk"
    and chain: "chain_ok b cc ps"
    and above: "\<forall>q < length blk. ?prev \<le> q \<longrightarrow> cc ! q = blk ! q"
    and below: "\<forall>q < ?prev. q \<notin> set ps \<longrightarrow> cc ! q = blk ! q"
    and all_in: "\<forall>q \<le> ?prev. 2 ^ b \<le> unat (blk ! q) \<longrightarrow> q \<in> set ps"
    by (simp_all add: patch_inv_def)
  have "?prev \<in> set ?E" using assms(4) by simp
  then have big: "2 ^ b \<le> unat (blk ! ?prev)"
    by (simp add: exception_positions_mem)
  have keep: "cc ! ?prev = blk ! ?prev"
    using above ps by simp
  have small: "unat (cc ! q) < 2 ^ b" if q: "q < BlockSize" "q \<noteq> ?prev" for q
  proof (cases "q \<in> set ps")
    case True
    with chain q ps show ?thesis by (intro chain_ok_small [of b cc ps q]) simp_all
  next
    case False
    have "cc ! q = blk ! q"
    proof (cases "q < ?prev")
      case True
      with below False show ?thesis by simp
    next
      case False
      with above q assms(1) show ?thesis by simp
    qed
    moreover have "unat (blk ! q) < 2 ^ b"
    proof (cases "q \<le> ?prev")
      case True
      with all_in False show ?thesis by (auto simp: not_le)
    next
      case False
      then have "\<not> 2 ^ b \<le> unat (blk ! q)"
        using exc_after_last [OF assms(4), of q] q by simp
      then show ?thesis by simp
    qed
    ultimately show ?thesis by simp
  qed
  show ?thesis
    using c small keep big ps assms(1) by simp
qed

theorem scratch_copy_small_but_last_witness:
  "length (5 # replicate 127 (0 :: u32)) = BlockSize \<and> (1 :: nat) < 32
   \<and> length (miss PFor) = BlockSize
   \<and> exception_positions (5 # replicate 127 0) 1 \<noteq> []
   \<and> (case compressblockPFOR bit_packer PFor (5 # replicate 127 0) 1 [] of
           (c', packed, exceptions', firstexcept) \<Rightarrow>
             packed = packblock bit_packer (codedcopy c') 1
             \<and> length (codedcopy c') = BlockSize
             \<and> (\<forall>q<BlockSize. q \<noteq> last (exception_positions (5 # replicate 127 0) 1)
                    \<longrightarrow> unat (codedcopy c' ! q) < 2 ^ 1)
             \<and> codedcopy c' ! last (exception_positions (5 # replicate 127 0) 1)
                 = (5 # replicate 127 0) ! last (exception_positions (5 # replicate 127 0) 1)
             \<and> 2 ^ 1 \<le> unat ((5 # replicate 127 (0 :: u32)) ! last (exception_positions (5 # replicate 127 0) 1)))"
proof -
  have h: "length (5 # replicate 127 (0 :: u32)) = BlockSize" "(1 :: nat) < 32"
    "length (miss PFor) = BlockSize"
    by (simp_all add: BlockSize_eq PFor_def)
  have e: "exception_positions (5 # replicate 127 0) 1 \<noteq> []"
    by code_simp
  show ?thesis
    using scratch_copy_small_but_last [OF h e, where pk = bit_packer and ?ex0.0 = "[]"] h e by blast
qed

text \<open>
  C4: the state \<open>compressblockPFOR\<close> reaches after its patching loop is the one, and the
  only one, that the specification's patching reaches from the first exception through
  the later real exception positions in increasing order; and when \<open>2^b >= BlockSize\<close>
  the values emitted are those at the real exception positions, with no compulsory
  exception among them.
\<close>

theorem patching_follows_spec:
  assumes "length blk = BlockSize" and "b < 32" and "length (miss c) = BlockSize"
    and "exception_positions blk b \<noteq> []"
  shows "case compressblockPFOR pk c blk b ex0 of
           (c', packed, exceptions', firstexcept) \<Rightarrow>
             (\<forall>s'. spec_patch_all (2 ^ b) (tl (exception_positions blk b))
                      (blk, firstexcept, ex0 @ [blk ! firstexcept]) s'
                    \<longleftrightarrow> s' = (codedcopy c', last (exception_positions blk b), exceptions'))
             \<and> (BlockSize \<le> 2 ^ b
                  \<longrightarrow> exceptions' = ex0 @ map ((!) blk) (exception_positions blk b))"
proof -
  let ?E = "exception_positions blk b"
  let ?start = "(blk, ?E ! 0, ex0 @ [blk ! (?E ! 0)])"
  have b: "b \<noteq> 32" using assms(2) by simp
  from compressblockPFOR_fold [OF assms(1) b assms(3,4), where pk = pk and ?ex0.0 = ex0]
  obtain m where c: "compressblockPFOR pk c blk b ex0
               = (case fold (patch_body b m) [1..<length ?E] ?start of
                    (cc, prev, ex) \<Rightarrow> (\<lparr>codedcopy = cc, miss = m\<rparr>, packblock pk cc b, ex, ?E ! 0))"
    and tk: "take (length ?E) m = ?E"
    by auto
  have pos: "1 \<le> length ?E" using assms(4) by (cases ?E) simp_all
  from patch_fold [OF assms(1,4) tk pos order_refl, of ex0]
  obtain ps cc ex where f: "fold (patch_body b m) [1..<length ?E] ?start
       = (cc, ?E ! (length ?E - 1), ex)"
    by auto
  have last: "?E ! (length ?E - 1) = last ?E"
    using assms(4) by (simp add: last_conv_nth)
  have c': "compressblockPFOR pk c blk b ex0
      = (\<lparr>codedcopy = cc, miss = m\<rparr>, packblock pk cc b, ex, ?E ! 0)"
    using c f by simp
  have "fold (patch_compulsory b m) [1..<length ?E] ?start = (cc, last ?E, ex)"
    using patch_body_compulsory [OF tk _ refl, of b ?start] exception_positions_bound f last
    by simp
  then have spec: "spec_patch_all (2 ^ b) (tl ?E) ?start s' \<longleftrightarrow> s' = (cc, last ?E, ex)" for s'
    using patch_fold_spec [of b m "[1..<length ?E]" ?start s'] map_nth_tl [OF tk] by simp
  have plain: "ex = ex0 @ map ((!) blk) ?E" if "BlockSize \<le> 2 ^ b"
    using patch_fold_plain [OF assms(1,4) tk that pos order_refl, of ex0] f by simp
  show ?thesis
    using c' spec plain by simp
qed

theorem patching_follows_spec_witness:
  "length block_a = BlockSize \<and> (2 :: nat) < 32 \<and> length (miss PFor) = BlockSize
   \<and> exception_positions block_a 2 = [3, 50, 51, 127]
   \<and> (case compressblockPFOR bit_packer PFor block_a 2 [] of
         (c', packed, exceptions', firstexcept) \<Rightarrow>
           firstexcept = 3 \<and> length exceptions' = 33
           \<and> spec_patch_all (2 ^ 2) [50, 51, 127] (block_a, 3, [block_a ! 3])
                 (codedcopy c', 127, exceptions'))
   \<and> length block_c = BlockSize \<and> (7 :: nat) < 32 \<and> BlockSize \<le> 2 ^ 7
   \<and> exception_positions block_c 7 = [3, 127]
   \<and> (case compressblockPFOR bit_packer PFor block_c 7 [] of
         (c', packed, exceptions', firstexcept) \<Rightarrow>
           firstexcept = 3 \<and> exceptions' = [200, 324]
           \<and> spec_patch_all (2 ^ 7) [127] (block_c, 3, [block_c ! 3])
                 (codedcopy c', 127, exceptions'))"
proof -
  have m: "length (miss PFor) = BlockSize" "BlockSize \<le> 2 ^ 7"
    by (simp_all add: BlockSize_eq PFor_def)
  have ha: "length block_a = BlockSize" "(2 :: nat) < 32"
    by (simp_all add: block_a_def BlockSize_eq)
  have ea: "exception_positions block_a 2 = [3, 50, 51, 127]"
    by code_simp
  obtain ca pa xa fa where ca: "compressblockPFOR bit_packer PFor block_a 2 [] = (ca, pa, xa, fa)"
    by (metis prod_cases4)
  have "length (fst (snd (snd (compressblockPFOR bit_packer PFor block_a 2 [])))) = 33"
    and "snd (snd (snd (compressblockPFOR bit_packer PFor block_a 2 []))) = 3"
    by code_simp+
  with ca have na: "length xa = 33" and fa: "fa = 3"
    by simp_all
  have sa: "spec_patch_all (2 ^ 2) [50, 51, 127] (block_a, 3, [block_a ! 3]) (codedcopy ca, 127, xa)"
    using patching_follows_spec [OF ha(1,2) m(1), where pk = bit_packer and ?ex0.0 = "[]"] ca fa ea
    by simp
  have hc: "length block_c = BlockSize" "(7 :: nat) < 32"
    by (simp_all add: block_c_def BlockSize_eq)
  have ec: "exception_positions block_c 7 = [3, 127]"
    by code_simp
  obtain cc pc xc fc where cc: "compressblockPFOR bit_packer PFor block_c 7 [] = (cc, pc, xc, fc)"
    by (metis prod_cases4)
  have "fst (snd (snd (compressblockPFOR bit_packer PFor block_c 7 []))) = [200, 324]"
    and "snd (snd (snd (compressblockPFOR bit_packer PFor block_c 7 []))) = 3"
    by code_simp+
  with cc have xc: "xc = [200, 324]" and fc: "fc = 3"
    by simp_all
  have sc: "spec_patch_all (2 ^ 7) [127] (block_c, 3, [block_c ! 3]) (codedcopy cc, 127, xc)"
    using patching_follows_spec [OF hc(1,2) m(1), where pk = bit_packer and ?ex0.0 = "[]"] cc fc ec
    by simp
  show ?thesis
    using m ha ea ca na fa sa hc ec cc xc fc sc by simp
qed

text \<open>
  C5: \<open>compressblockPFOR\<close> returns the position of the first exception of the block,
  the smallest \<open>k\<close> with \<open>in[k] >= 2^b\<close>, and \<open>BlockSize\<close> when the block has no such
  value, which is always so for \<open>b = 32\<close>.
\<close>

theorem first_exception_position:
  assumes "length blk = BlockSize" and "b \<le> 32" and "length (miss c) = BlockSize"
  shows "case compressblockPFOR pk c blk b ex0 of
           (c', packed, exceptions', firstexcept) \<Rightarrow>
             (if \<exists>k<BlockSize. 2 ^ b \<le> unat (blk ! k)
              then firstexcept < BlockSize \<and> 2 ^ b \<le> unat (blk ! firstexcept)
                   \<and> (\<forall>k<firstexcept. unat (blk ! k) < 2 ^ b)
              else firstexcept = BlockSize)
             \<and> (b = 32 \<longrightarrow> firstexcept = BlockSize)"
proof -
  let ?E = "exception_positions blk b"
  obtain c' packed exs fe where c: "compressblockPFOR pk c blk b ex0 = (c', packed, exs, fe)"
    by (metis prod_cases4)
  have fe: "fe = (if ?E = [] then BlockSize else ?E ! 0)"
    using compressblockPFOR_first [OF assms, where pk = pk and ?ex0.0 = ex0] c by simp
  have raw: "b = 32 \<longrightarrow> fe = BlockSize"
    using fe by (auto simp: exception_positions_32)
  show ?thesis
  proof (cases "?E = []")
    case True
    then have "\<not> (\<exists>k<BlockSize. 2 ^ b \<le> unat (blk ! k))"
      by (auto simp: exception_positions_empty_iff not_le [symmetric])
    with True fe raw c show ?thesis by simp
  next
    case False
    then have ex: "\<exists>k<BlockSize. 2 ^ b \<le> unat (blk ! k)"
      by (auto simp: exception_positions_empty_iff not_le [symmetric])
    have "?E ! 0 \<in> set ?E" using False by simp
    then have "?E ! 0 < BlockSize" "2 ^ b \<le> unat (blk ! (?E ! 0))"
      by (simp_all add: exception_positions_mem)
    moreover have "\<forall>k < ?E ! 0. unat (blk ! k) < 2 ^ b"
      using exc_before_first [OF False] by (simp add: not_le)
    ultimately show ?thesis using False fe raw c ex by simp
  qed
qed

theorem first_exception_position_witness:
  "length (5 # replicate 127 (0 :: u32)) = BlockSize \<and> (1 :: nat) \<le> 32
   \<and> length (miss PFor) = BlockSize
   \<and> (case compressblockPFOR bit_packer PFor (5 # replicate 127 0) 1 [] of
           (c', packed, exceptions', firstexcept) \<Rightarrow>
             (if \<exists>k<BlockSize. 2 ^ 1 \<le> unat ((5 # replicate 127 (0 :: u32)) ! k)
              then firstexcept < BlockSize
                   \<and> 2 ^ 1 \<le> unat ((5 # replicate 127 (0 :: u32)) ! firstexcept)
                   \<and> (\<forall>k<firstexcept. unat ((5 # replicate 127 (0 :: u32)) ! k) < 2 ^ 1)
              else firstexcept = BlockSize)
             \<and> ((1 :: nat) = 32 \<longrightarrow> firstexcept = BlockSize))"
proof -
  have h: "length (5 # replicate 127 (0 :: u32)) = BlockSize" "(1 :: nat) \<le> 32"
    "length (miss PFor) = BlockSize"
    by (simp_all add: BlockSize_eq PFor_def)
  show ?thesis
    using first_exception_position [OF h, where pk = bit_packer and ?ex0.0 = "[]"] h by blast
qed

text \<open>
  C7: encoding the empty array writes the single word 0, and decoding it gives no value
  and the cursor one word past the start.
\<close>

theorem zero_length:
  "encodeArray pk fp rnd c [] nvalue = Inr (c, [0], 1) \<and> decodeArray pk [0] 1 = Inr (1, [], 0)"
  by (simp add: encodeArray_def encode_chunks.simps decodeArray_def)

theorem zero_length_witness:
  "encodeArray bit_packer exact_ops (\<lambda>i. 0) PFor [] 1 = Inr (PFor, [0], 1)
   \<and> decodeArray bit_packer [0] 1 = Inr (1, [], 0)"
  using zero_length [where pk = bit_packer and fp = exact_ops and rnd = "\<lambda>i. 0" and c = PFor and nvalue = 1] by simp

text \<open>
  C9: for an array of 1 to 65536 values the sample is the whole array and starts at
  offset 0 whatever \<open>rand()\<close> returns, so \<open>determineBestBase\<close> returns the same width for
  any two values of \<open>rand()\<close>.
\<close>

theorem determineBestBase_deterministic:
  assumes "1 \<le> length input" and "length input \<le> 65536"
  shows "(let samplesize = (if length input > 64 * 1024 then 64 * 1024 else length input)
          in samplesize = length input \<and> sample_start r (length input) samplesize = 0)
         \<and> determineBestBase fp r input = determineBestBase fp r' input"
  using assms by (simp add: determineBestBase_def sample_start_def Let_def)

theorem determineBestBase_deterministic_witness:
  "1 \<le> length [7 :: u32] \<and> length [7 :: u32] \<le> 65536
   \<and> (let samplesize = (if length [7 :: u32] > 64 * 1024 then 64 * 1024 else length [7 :: u32])
        in samplesize = length [7 :: u32] \<and> sample_start 12345 (length [7 :: u32]) samplesize = 0)
   \<and> determineBestBase exact_ops 12345 [7] = determineBestBase exact_ops 54321 [7]"
proof -
  have h: "1 \<le> length [7 :: u32]" "length [7 :: u32] \<le> 65536"
    by simp_all
  show ?thesis
    using determineBestBase_deterministic [OF h, of 12345 exact_ops 54321] h by blast
qed

end
